theory Spec2Isabelle
  imports Main "HOL-Library.Word" "HOL-Library.AList"
begin

unbundle bit_operations_syntax

section \<open>Strings: decimal rendering and bus-object-path segments\<close>

text \<open>
  JavaScript's \<^verbatim>\<open>Number.prototype.toString()\<close> on a non-negative integer, as used by
  \<^verbatim>\<open>this.trash.length.toString()\<close> and by template literals: the decimal digits, most
  significant first, no leading zero except for 0 itself.
\<close>

definition digit :: "nat \<Rightarrow> char" where
  "digit d = char_of (48 + d)"

fun toString :: "nat \<Rightarrow> string" where
  "toString n = (if n < 10 then [digit n] else toString (n div 10) @ [digit (n mod 10)])"

declare toString.simps [simp del]

text \<open>
  An element of a bus object path is a non-empty string over \<^verbatim>\<open>[A-Za-z0-9_]\<close>.
\<close>

definition segChar :: "char \<Rightarrow> bool" where
  "segChar c = (let n = (of_char c :: nat) in
     (48 \<le> n \<and> n \<le> 57) \<or> (65 \<le> n \<and> n \<le> 90) \<or> (97 \<le> n \<and> n \<le> 122) \<or> n = 95)"

definition validSegment :: "string \<Rightarrow> bool" where
  "validSegment s = (s \<noteq> [] \<and> list_all segChar s)"

section \<open>The portal client base (DesktopPortal)\<close>

type_synonym token = string
type_synonym path = string
type_synonym payload = "(string \<times> string) list"

text \<open>A request handle, and also the session handle: \<^verbatim>\<open>{ token: string; path: string }\<close>.\<close>

record request =
  token :: token
  path :: path

datatype error = ConnectionError | RequestDenied "32 word" | TypeError

text \<open>The method calls the client puts on the bus, with the arguments the source passes.\<close>

datatype call =
    CreateSession token token
  | SelectDevices path token "32 word"
  | Start path string token
  | NotifyPointerMotion path int int

text \<open>
  What happens on the bus connection, in order: a method call sent, or a response
  notification taken by the request correlator for a pending entry. A call is recorded
  with the caller it was sent for; for RemoteDesktop that is the number of the call of
  \<^verbatim>\<open>setPointer\<close> within which the call is made.
\<close>

datatype obs = Sent nat call | Observed path "32 word"

datatype settlement = Unsettled | Fulfilled payload | Rejected error

text \<open>
  The state the portal client base owns: the unique bus name, the token generator's
  counter and its source of random suffixes (the n-th draw of the random generator),
  the table of pending calls keyed by response path, the futures handed out by
  \<^verbatim>\<open>makeRequest\<close> (indexed in creation order), the traffic on the connection, and
  whether the connection has terminated.
\<close>

record portal =
  busName :: string
  entropy :: "nat \<Rightarrow> nat"
  counter :: nat
  pending :: "(path \<times> nat) list"
  futures :: "settlement list"
  wire :: "obs list"
  closed :: bool

text \<open>
  Modelled from the spec: the class DesktopPortal (\<^verbatim>\<open>./desktop-portal\<close>), which
  RemoteDesktop extends, is not among the source files; the token generator follows
  section 4.1 of the specification, "a monotonically increasing counter combined with a
  random suffix", joined to the prefix with underscores.
\<close>

definition makeToken :: "string \<Rightarrow> nat \<Rightarrow> nat \<Rightarrow> token" where
  "makeToken prefix n r = prefix @ ''_'' @ toString n @ ''_'' @ toString r"

text \<open>
  Modelled from the spec: the response path is "a deterministic function of the local
  unique bus name and the token" (section 3); DesktopPortal's own formula is not among
  the source files, the model appends the token to the bus name as a last path element.
\<close>

definition responsePath :: "string \<Rightarrow> token \<Rightarrow> path" where
  "responsePath bus t = bus @ ''/'' @ t"

text \<open>
  Modelled from the spec: \<^verbatim>\<open>generateToken(prefix)\<close> of DesktopPortal, called by
  RemoteDesktop.connect and by \<^verbatim>\<open>makeRequest\<close>; it returns the token together with the
  path derived from it and advances the counter.
\<close>

definition generateToken :: "string \<Rightarrow> 'a portal_scheme \<Rightarrow> request \<times> 'a portal_scheme" where
  "generateToken prefix s =
     (let t = makeToken prefix (counter s) (entropy s (counter s))
      in (\<lparr>token = t, path = responsePath (busName s) t\<rparr>, s\<lparr>counter := counter s + 1\<rparr>))"

text \<open>The tokens of n successive calls of \<^verbatim>\<open>generateToken(prefix)\<close>.\<close>

fun generateMany :: "string \<Rightarrow> nat \<Rightarrow> 'a portal_scheme \<Rightarrow> token list" where
  "generateMany prefix 0 s = []"
| "generateMany prefix (Suc n) s =
     (let (r, s') = generateToken prefix s in token r # generateMany prefix n s')"

text \<open>
  Modelled from the spec: \<^verbatim>\<open>makeRequest(sendFn)\<close> of DesktopPortal, which is not among
  the source files; steps 1 to 4 of section 4.2: generate a request token, compute the
  response path, register the pending entry, then invoke the send function, which puts
  one call on the bus. The result is the future the caller awaits. Once the connection
  has terminated a request fails at once with the connection failure (section 7: a
  dropped bus is "fatal to all pending and future requests"): nothing is registered and
  nothing is sent. The first argument names the caller for whom the call is sent; it is
  written into the record of the traffic and decides nothing.
\<close>

definition makeRequest ::
  "nat \<Rightarrow> (request \<Rightarrow> call) \<Rightarrow> 'a portal_scheme \<Rightarrow> nat \<times> 'a portal_scheme" where
  "makeRequest who sendFn s =
     (let (req, s1) = generateToken ''request'' s;
          f = length (futures s1)
      in if closed s1 then (f, s1\<lparr>futures := futures s1 @ [Rejected ConnectionError]\<rparr>)
         else
           (let s2 = s1\<lparr>pending := AList.update (path req) f (pending s1),
                        futures := futures s1 @ [Unsettled]\<rparr>
            in (f, s2\<lparr>wire := wire s2 @ [Sent who (sendFn req)]\<rparr>)))"

text \<open>
  Modelled from the spec: the response handler of DesktopPortal, which is not among the
  source files; step 5 of section 4.2, a notification \<open>(statusCode, results)\<close>
  arriving on a response path. With a pending entry for the path, the future settles
  (successfully on status 0, with the status code otherwise) and the entry is removed;
  without one the notification is ignored.
\<close>

definition settle :: "32 word \<Rightarrow> payload \<Rightarrow> settlement" where
  "settle st res = (if st = 0 then Fulfilled res else Rejected (RequestDenied st))"

definition deliver :: "path \<Rightarrow> 32 word \<Rightarrow> payload \<Rightarrow> 'a portal_scheme \<Rightarrow> 'a portal_scheme" where
  "deliver p st res s =
     (case map_of (pending s) p of
        None \<Rightarrow> s
      | Some f \<Rightarrow> s\<lparr>pending := AList.delete p (pending s),
                     futures := (futures s)[f := settle st res],
                     wire := wire s @ [Observed p st]\<rparr>)"

text \<open>
  Modelled from the spec: what DesktopPortal does when the bus connection closes, which is
  not among the source files; step 6 of section 4.2, the connection terminates: every future
  with a pending entry is settled with the connection failure, the table is emptied, and
  the connection stays terminated for the rest of the client's life.
\<close>

fun failAll :: "(path \<times> nat) list \<Rightarrow> settlement list \<Rightarrow> settlement list" where
  "failAll [] fs = fs"
| "failAll ((p, f) # es) fs = failAll es (fs[f := Rejected ConnectionError])"

definition connectionLost :: "'a portal_scheme \<Rightarrow> 'a portal_scheme" where
  "connectionLost s =
     s\<lparr>futures := failAll (pending s) (futures s), pending := [], closed := True\<rparr>"

text \<open>The state of a future; one that was never created is not settled.\<close>

definition settlementOf :: "'a portal_scheme \<Rightarrow> nat \<Rightarrow> settlement" where
  "settlementOf s f = (if f < length (futures s) then futures s ! f else Unsettled)"

text \<open>A fresh portal client on a given bus name.\<close>

definition newPortal :: "string \<Rightarrow> (nat \<Rightarrow> nat) \<Rightarrow> portal" where
  "newPortal bus rnd =
     \<lparr>busName = bus, entropy = rnd, counter = 0, pending = [], futures = [], wire = [],
      closed = False\<rparr>"

text \<open>The correlator on its own: any sequence of requests, responses and a connection loss.\<close>

datatype pevent =
    MakeRequest nat "request \<Rightarrow> call"
  | Deliver path "32 word" payload
  | Drop

fun pstep :: "pevent \<Rightarrow> 'a portal_scheme \<Rightarrow> 'a portal_scheme" where
  "pstep (MakeRequest who sendFn) s = snd (makeRequest who sendFn s)"
| "pstep (Deliver p st res) s = deliver p st res s"
| "pstep Drop s = connectionLost s"

definition prun :: "pevent list \<Rightarrow> 'a portal_scheme \<Rightarrow> 'a portal_scheme" where
  "prun es s = fold pstep es s"

section \<open>The remote-desktop session client (RemoteDesktop)\<close>

text \<open>
  Every call of \<^verbatim>\<open>setPointer\<close> is an asynchronous task; between two of its
  \<^verbatim>\<open>await\<close> points it runs without interruption. The program counter says at which
  \<^verbatim>\<open>await\<close> the task is suspended: in \<^verbatim>\<open>connect\<close> at \<^verbatim>\<open>super.init()\<close>, at the
  future of \<^verbatim>\<open>createSession\<close>, \<^verbatim>\<open>requestDevices\<close> or \<^verbatim>\<open>start\<close>, or in
  \<^verbatim>\<open>setPointer\<close> at \<^verbatim>\<open>await this.connect()\<close> once \<^verbatim>\<open>connect\<close> has returned; or
  that it has finished, normally or with the error it rejected with.
\<close>

datatype pc =
    AwaitInit
  | AwaitCreateSession nat
  | AwaitRequestDevices nat
  | AwaitStart nat
  | AwaitConnect
  | Done
  | Failed error

record task =
  tx :: int
  ty :: int
  pc :: pc

text \<open>
  The client: the portal base, \<^verbatim>\<open>this.interface\<close> (set or not), \<^verbatim>\<open>this.session\<close>, and
  the tasks started so far, in call order.
\<close>

record client = portal +
  interface :: bool
  session :: "request option"
  tasks :: "task list"

definition newClient :: "string \<Rightarrow> (nat \<Rightarrow> nat) \<Rightarrow> client" where
  "newClient bus rnd =
     \<lparr>busName = bus, entropy = rnd, counter = 0, pending = [], futures = [], wire = [],
      closed = False, interface = False, session = None, tasks = []\<rparr>"

definition setPc :: "nat \<Rightarrow> pc \<Rightarrow> client \<Rightarrow> client" where
  "setPc tid c s = s\<lparr>tasks := (tasks s)[tid := (tasks s ! tid)\<lparr>pc := c\<rparr>]\<rparr>"

text \<open>
  \<^verbatim>\<open>createSession\<close>, \<^verbatim>\<open>requestDevices\<close> and \<^verbatim>\<open>start\<close>: each hands \<^verbatim>\<open>makeRequest\<close> a
  callback that sends one call, and the task then awaits the returned future. The
  callbacks read \<^verbatim>\<open>this.session\<close> when they run; reading a field of an undefined
  session is a TypeError.
\<close>

definition createSession :: "nat \<Rightarrow> client \<Rightarrow> client" where
  "createSession tid s =
     (case session s of
        None \<Rightarrow> setPc tid (Failed TypeError) s
      | Some se \<Rightarrow>
          (let (f, s') = makeRequest tid (\<lambda>req. CreateSession (token req) (token se)) s
           in setPc tid (AwaitCreateSession f) s'))"

definition requestDevices :: "nat \<Rightarrow> client \<Rightarrow> client" where
  "requestDevices tid s =
     (case session s of
        None \<Rightarrow> setPc tid (Failed TypeError) s
      | Some se \<Rightarrow>
          (let (f, s') = makeRequest tid (\<lambda>req. SelectDevices (path se) (token req) (1 OR 2)) s
           in setPc tid (AwaitRequestDevices f) s'))"

definition start :: "nat \<Rightarrow> client \<Rightarrow> client" where
  "start tid s =
     (case session s of
        None \<Rightarrow> setPc tid (Failed TypeError) s
      | Some se \<Rightarrow>
          (let (f, s') = makeRequest tid (\<lambda>req. Start (path se) [] (token req)) s
           in setPc tid (AwaitStart f) s'))"

text \<open>
  A call of \<^verbatim>\<open>setPointer(x, y)\<close> runs into \<^verbatim>\<open>connect\<close>: with \<^verbatim>\<open>this.interface\<close> unset
  the new task calls \<^verbatim>\<open>super.init()\<close> and waits for it; otherwise \<^verbatim>\<open>connect\<close> returns
  at once and the task waits at \<^verbatim>\<open>await this.connect()\<close>.
\<close>

definition setPointer :: "int \<Rightarrow> int \<Rightarrow> client \<Rightarrow> client" where
  "setPointer x y s =
     s\<lparr>tasks := tasks s @
          [\<lparr>tx = x, ty = y, pc = (if \<not> interface s then AwaitInit else AwaitConnect)\<rparr>]\<rparr>"

text \<open>
  \<^verbatim>\<open>connect\<close> after \<^verbatim>\<open>super.init()\<close> has resolved for the task: the interface is
  fetched, the session handle is generated, and \<^verbatim>\<open>createSession\<close> is called.
\<close>

definition initDone :: "nat \<Rightarrow> client \<Rightarrow> client" where
  "initDone tid s =
     (if tid < length (tasks s) \<and> pc (tasks s ! tid) = AwaitInit then
        (let s1 = s\<lparr>interface := True\<rparr>;
             (se, s2) = generateToken ''session'' s1;
             s3 = s2\<lparr>session := Some se\<rparr>
         in createSession tid s3)
      else s)"

text \<open>\<^verbatim>\<open>super.init()\<close> rejects (the bus is not available): so do \<^verbatim>\<open>connect\<close> and the task.\<close>

definition initFailed :: "nat \<Rightarrow> client \<Rightarrow> client" where
  "initFailed tid s =
     (if tid < length (tasks s) \<and> pc (tasks s ! tid) = AwaitInit
      then setPc tid (Failed ConnectionError) s else s)"

text \<open>The last line of \<^verbatim>\<open>setPointer\<close>: the motion call is sent and nothing is awaited.\<close>

definition notifyPointerMotion :: "nat \<Rightarrow> client \<Rightarrow> client" where
  "notifyPointerMotion tid s =
     (case session s of
        None \<Rightarrow> setPc tid (Failed TypeError) s
      | Some se \<Rightarrow>
          setPc tid Done
            (s\<lparr>wire := wire s @
                 [Sent tid
                    (NotifyPointerMotion (path se) (tx (tasks s ! tid)) (ty (tasks s ! tid)))]\<rparr>))"

text \<open>
  A suspended task continues once what it awaits is settled: after a fulfilled future
  with the next line of \<^verbatim>\<open>connect\<close>, after a rejected one by rejecting in turn.
\<close>

definition afterFuture :: "nat \<Rightarrow> nat \<Rightarrow> (nat \<Rightarrow> client \<Rightarrow> client) \<Rightarrow> client \<Rightarrow> client" where
  "afterFuture tid f next s =
     (case settlementOf s f of
        Unsettled \<Rightarrow> s
      | Fulfilled res \<Rightarrow> next tid s
      | Rejected e \<Rightarrow> setPc tid (Failed e) s)"

definition resume :: "nat \<Rightarrow> client \<Rightarrow> client" where
  "resume tid s =
     (if tid < length (tasks s) then
        (case pc (tasks s ! tid) of
           AwaitCreateSession f \<Rightarrow> afterFuture tid f requestDevices s
         | AwaitRequestDevices f \<Rightarrow> afterFuture tid f start s
         | AwaitStart f \<Rightarrow> afterFuture tid f (\<lambda>t. setPc t AwaitConnect) s
         | AwaitConnect \<Rightarrow> notifyPointerMotion tid s
         | _ \<Rightarrow> s)
      else s)"

text \<open>
  What can happen to a client, one event at a time: a caller invokes \<^verbatim>\<open>setPointer\<close>,
  \<^verbatim>\<open>super.init()\<close> settles for a task, a response notification arrives on a path, a
  suspended task is scheduled, the connection terminates.
\<close>

datatype event =
    CallSetPointer int int
  | InitDone nat
  | InitFailed nat
  | Response path "32 word" payload
  | Resume nat
  | ConnectionLost

fun step :: "event \<Rightarrow> client \<Rightarrow> client" where
  "step (CallSetPointer x y) s = setPointer x y s"
| "step (InitDone tid) s = initDone tid s"
| "step (InitFailed tid) s = initFailed tid s"
| "step (Response p st res) s = deliver p st res s"
| "step (Resume tid) s = resume tid s"
| "step ConnectionLost s = connectionLost s"

definition run :: "event list \<Rightarrow> client \<Rightarrow> client" where
  "run es s = fold step es s"

text \<open>The calls sent so far, in order.\<close>

fun sentCalls :: "obs list \<Rightarrow> call list" where
  "sentCalls [] = []"
| "sentCalls (Sent t c # os) = c # sentCalls os"
| "sentCalls (Observed p st # os) = sentCalls os"

text \<open>The calls sent so far for one caller, in order.\<close>

fun sentBy :: "nat \<Rightarrow> obs list \<Rightarrow> call list" where
  "sentBy t [] = []"
| "sentBy t (Sent u c # os) = (if u = t then c # sentBy t os else sentBy t os)"
| "sentBy t (Observed p st # os) = sentBy t os"

fun isCreateSession :: "call \<Rightarrow> bool" where
  "isCreateSession (CreateSession t u) = True"
| "isCreateSession c = False"

fun isSelectDevices :: "call \<Rightarrow> bool" where
  "isSelectDevices (SelectDevices p t m) = True"
| "isSelectDevices c = False"

fun isStart :: "call \<Rightarrow> bool" where
  "isStart (Start p w t) = True"
| "isStart c = False"

fun isNotifyPointerMotion :: "call \<Rightarrow> bool" where
  "isNotifyPointerMotion (NotifyPointerMotion p x y) = True"
| "isNotifyPointerMotion c = False"

section \<open>The trash tab of the editor toolbar (TrashTab)\<close>

text \<open>
  A trashed menu or menu item is an object: \<^verbatim>\<open>t !== thing\<close> compares identities, and
  \<^verbatim>\<open>menu.root\<close> tells a menu from a menu item.
\<close>

record thing =
  ref :: nat
  hasRoot :: bool

text \<open>A ToolbarDraggable: its own identity, its data type and the thing it carries.\<close>

record draggable =
  did :: nat
  dataType :: string
  getData :: thing

text \<open>
  The tab: \<^verbatim>\<open>this.trash\<close>, \<^verbatim>\<open>this.draggables\<close>, the draggables registered with the
  drag-and-drop manager, the text of the counter element, and the identity the next
  created object gets.
\<close>

record trashTab =
  trash :: "thing list"
  draggables :: "draggable list"
  registry :: "draggable list"
  counterText :: string
  nextObject :: nat

text \<open>
  Modelled from the spec: DnDManager (\<^verbatim>\<open>../common/dnd-manager\<close>) is not among the source
  files and the specification leaves the editor out; its registry is taken as the list
  of registered draggables, \<^verbatim>\<open>registerDraggable\<close> adding one at the end and
  \<^verbatim>\<open>unregisterDraggable\<close> removing the object given.
\<close>

definition registerDraggable :: "draggable \<Rightarrow> draggable list \<Rightarrow> draggable list" where
  "registerDraggable d reg = reg @ [d]"

definition unregisterDraggable :: "draggable \<Rightarrow> draggable list \<Rightarrow> draggable list" where
  "unregisterDraggable d reg = filter (\<lambda>e. did e \<noteq> did d) reg"

text \<open>One round of the second loop of \<^verbatim>\<open>redraw\<close>, for one trashed thing.\<close>

definition addDraggable :: "thing \<Rightarrow> trashTab \<Rightarrow> trashTab" where
  "addDraggable t s =
     (let d = \<lparr>did = nextObject s,
               dataType = (if hasRoot t then ''trashed-menu'' else ''trashed-menu-item''),
               getData = t\<rparr>
      in s\<lparr>registry := registerDraggable d (registry s),
            draggables := draggables s @ [d],
            nextObject := nextObject s + 1\<rparr>)"

definition redraw :: "trashTab \<Rightarrow> trashTab" where
  "redraw s =
     (let s1 = s\<lparr>registry := fold unregisterDraggable (draggables s) (registry s)\<rparr>;
          s2 = s1\<lparr>draggables := []\<rparr>;
          s3 = fold addDraggable (trash s2) s2
      in s3\<lparr>counterText := toString (length (trash s3))\<rparr>)"

text \<open>
  The constructor, given what the manager has registered already, the next free object
  identity and the counter text of the toolbar template.
\<close>

definition construct :: "draggable list \<Rightarrow> nat \<Rightarrow> string \<Rightarrow> trashTab" where
  "construct reg n txt =
     redraw \<lparr>trash = [], draggables = [], registry = reg, counterText = txt, nextObject = n\<rparr>"

definition onDrop :: "draggable \<Rightarrow> trashTab \<Rightarrow> trashTab" where
  "onDrop d s = redraw (s\<lparr>trash := trash s @ [getData d]\<rparr>)"

text \<open>The \<^verbatim>\<open>'drop'\<close> handler of the draggable made for a trashed thing.\<close>

definition itemDropped :: "thing \<Rightarrow> trashTab \<Rightarrow> trashTab" where
  "itemDropped t s = redraw (s\<lparr>trash := filter (\<lambda>u. ref u \<noteq> ref t) (trash s)\<rparr>)"

text \<open>
  The life of a tab: things are dropped on it, and the i-th of its current draggables
  is dropped elsewhere.
\<close>

datatype tabEvent = OnDrop draggable | ItemDrop nat

fun tabStep :: "tabEvent \<Rightarrow> trashTab \<Rightarrow> trashTab" where
  "tabStep (OnDrop d) s = onDrop d s"
| "tabStep (ItemDrop i) s =
     (if i < length (draggables s) then itemDropped (getData (draggables s ! i)) s else s)"

definition tabRun :: "tabEvent list \<Rightarrow> trashTab \<Rightarrow> trashTab" where
  "tabRun es s = fold tabStep es s"

section \<open>Invariants of the model\<close>

text \<open>A response path that belongs to a request token generated so far.\<close>

definition issued :: "'a portal_scheme \<Rightarrow> path \<Rightarrow> bool" where
  "issued s p \<longleftrightarrow>
     (\<exists>i < counter s. p = responsePath (busName s) (makeToken ''request'' i (entropy s i)))"

text \<open>
  The pending table and the futures fit together: no response path and no future occurs
  twice in the table, every entry belongs to an unsettled future and sits on the path of
  a request token generated earlier, and every unsettled future has its entry.
\<close>

definition corrInv :: "'a portal_scheme \<Rightarrow> bool" where
  "corrInv s \<longleftrightarrow>
     distinct (map fst (pending s)) \<and> distinct (map snd (pending s)) \<and>
     (\<forall>(p, f) \<in> set (pending s).
        f < length (futures s) \<and> futures s ! f = Unsettled \<and> issued s p) \<and>
     (\<forall>f < length (futures s). futures s ! f = Unsettled \<longrightarrow> f \<in> snd ` set (pending s))"

text \<open>The entry of one request: its path leads to its future and to no other.\<close>

definition ownEntry :: "path \<Rightarrow> nat \<Rightarrow> 'a portal_scheme \<Rightarrow> bool" where
  "ownEntry p f s \<longleftrightarrow>
     f < length (futures s) \<and> issued s p \<and>
     (\<forall>(q, g) \<in> set (pending s). (q = p) = (g = f))"


text \<open>The request token a setup call carries as its \<^verbatim>\<open>handle_token\<close>.\<close>

fun handleToken :: "call \<Rightarrow> token" where
  "handleToken (CreateSession t u) = t"
| "handleToken (SelectDevices p t m) = t"
| "handleToken (Start p w t) = t"
| "handleToken (NotifyPointerMotion p x y) = []"

text \<open>The setup calls sent for one call of \<^verbatim>\<open>setPointer\<close>: all but its motion call.\<close>

definition setupBy :: "nat \<Rightarrow> obs list \<Rightarrow> call list" where
  "setupBy t w = filter (\<lambda>c. \<not> isNotifyPointerMotion c) (sentBy t w)"

text \<open>
  A setup sequence, complete or not: \<^verbatim>\<open>CreateSession\<close>, then \<^verbatim>\<open>SelectDevices\<close>, then
  \<^verbatim>\<open>Start\<close>, each at most once.
\<close>

fun setupSequence :: "call list \<Rightarrow> bool" where
  "setupSequence [] = True"
| "setupSequence [a] = isCreateSession a"
| "setupSequence [a, b] = (isCreateSession a \<and> isSelectDevices b)"
| "setupSequence [a, b, c] = (isCreateSession a \<and> isSelectDevices b \<and> isStart c)"
| "setupSequence cs = False"

text \<open>How many setup calls a task can have sent when it stands at a program counter.\<close>

fun stageBound :: "pc \<Rightarrow> nat" where
  "stageBound AwaitInit = 0"
| "stageBound (AwaitCreateSession f) = 1"
| "stageBound (AwaitRequestDevices f) = 2"
| "stageBound c = 3"

text \<open>
  In the traffic w, a call of the given kind was sent for caller t, and after it the
  successful response on the path of its request token was observed.
\<close>

definition respondedAfter :: "string \<Rightarrow> nat \<Rightarrow> (call \<Rightarrow> bool) \<Rightarrow> obs list \<Rightarrow> bool" where
  "respondedAfter bus t kind w \<longleftrightarrow>
     (\<exists>a c b. w = a @ Sent t c # b \<and> kind c \<and>
        Observed (responsePath bus (handleToken c)) 0 \<in> set b)"

text \<open>
  The traffic is in order when each device selection comes after the answered session
  creation of the same caller, and each start after its answered device selection.
\<close>

definition ordered :: "string \<Rightarrow> obs list \<Rightarrow> bool" where
  "ordered bus w \<longleftrightarrow>
     (\<forall>pre t c post. w = pre @ Sent t c # post \<longrightarrow>
        (isSelectDevices c \<longrightarrow> respondedAfter bus t isCreateSession pre) \<and>
        (isStart c \<longrightarrow> respondedAfter bus t isSelectDevices pre))"

text \<open>
  Task t waits for the future f of a request of the given kind: while the future is
  unsettled the call has been sent for t and the future is pending on the path of the
  call's token; once the future is fulfilled the call of t has been answered.
\<close>

definition awaiting :: "client \<Rightarrow> nat \<Rightarrow> (call \<Rightarrow> bool) \<Rightarrow> nat \<Rightarrow> bool" where
  "awaiting s t kind f \<longleftrightarrow>
     f < length (futures s) \<and>
     (futures s ! f = Unsettled \<longrightarrow>
        (\<exists>c. kind c \<and> Sent t c \<in> set (wire s) \<and>
             (responsePath (busName s) (handleToken c), f) \<in> set (pending s))) \<and>
     (\<forall>res. futures s ! f = Fulfilled res \<longrightarrow> respondedAfter (busName s) t kind (wire s))"

definition taskInv :: "client \<Rightarrow> nat \<Rightarrow> pc \<Rightarrow> bool" where
  "taskInv s t c \<longleftrightarrow>
     length (setupBy t (wire s)) \<le> stageBound c \<and>
     (case c of
        AwaitCreateSession f \<Rightarrow> awaiting s t isCreateSession f
      | AwaitRequestDevices f \<Rightarrow> awaiting s t isSelectDevices f
      | AwaitStart f \<Rightarrow> awaiting s t isStart f
      | _ \<Rightarrow> True)"

text \<open>
  What holds of a client between events: the correlator's table and futures fit
  together, every task stands where its calls and its future say, the setup calls of
  each task form a setup sequence, no call was sent for a task that does not exist, and
  the traffic is in order.
\<close>

definition sessInv :: "client \<Rightarrow> bool" where
  "sessInv s \<longleftrightarrow>
     corrInv s \<and>
     (\<forall>t < length (tasks s). taskInv s t (pc (tasks s ! t))) \<and>
     (\<forall>t. setupSequence (setupBy t (wire s))) \<and>
     (\<forall>t. length (tasks s) \<le> t \<longrightarrow> sentBy t (wire s) = []) \<and>
     ordered (busName s) (wire s)"

text \<open>The arguments the client may pass: device types 3, and no parent window.\<close>

fun fixedArgs :: "call \<Rightarrow> bool" where
  "fixedArgs (SelectDevices p t m) = (m = 3)"
| "fixedArgs (Start p w t) = (w = [])"
| "fixedArgs c = True"

text \<open>
  What \<^verbatim>\<open>redraw\<close> leaves behind, whatever the trash holds: the manager has what it
  had from elsewhere (identities below n) and after it the tab's draggables, one for each
  trashed thing and in the order of the trash, and the counter shows the length.
\<close>

definition tabInv :: "draggable list \<Rightarrow> nat \<Rightarrow> trashTab \<Rightarrow> bool" where
  "tabInv reg n s \<longleftrightarrow>
     n \<le> nextObject s \<and> registry s = reg @ draggables s \<and>
     list_all (\<lambda>e. n \<le> did e) (draggables s) \<and>
     distinct (map did (draggables s)) \<and>
     map getData (draggables s) = trash s \<and>
     counterText s = toString (length (trash s))"

section \<open>Facts about tokens\<close>

lemma toString_nonempty: "toString n \<noteq> []"
  by (subst toString.simps) simp

lemma of_char_digit: "d < 10 \<Longrightarrow> (of_char (digit d) :: nat) = 48 + d"
  by (simp add: digit_def)

lemma digit_inj: "d < 10 \<Longrightarrow> e < 10 \<Longrightarrow> digit d = digit e \<Longrightarrow> d = e"
  by (metis of_char_digit add_left_cancel)

lemma segChar_digit: "d < 10 \<Longrightarrow> segChar (digit d)"
  by (simp add: segChar_def of_char_digit)

lemma digit_not_underscore: "d < 10 \<Longrightarrow> digit d \<noteq> CHR ''_''"
proof
  assume d: "d < 10" and e: "digit d = CHR ''_''"
  have "(of_char (digit d) :: nat) = 48 + d" using d by (rule of_char_digit)
  moreover have "(of_char (CHR ''_'') :: nat) = 95" by simp
  ultimately show False using d e by simp
qed

lemma toString_segChar: "list_all segChar (toString n)"
proof (induction n rule: toString.induct)
  case (1 n)
  show ?case
  proof (cases "n < 10")
    case True
    then show ?thesis by (subst toString.simps) (simp add: segChar_digit)
  next
    case False
    with 1 show ?thesis by (subst toString.simps) (simp add: segChar_digit)
  qed
qed

lemma toString_no_underscore: "CHR ''_'' \<notin> set (toString n)"
proof (induction n rule: toString.induct)
  case (1 n)
  show ?case
  proof (cases "n < 10")
    case True
    then show ?thesis
      using digit_not_underscore [of n] by (subst toString.simps) auto
  next
    case False
    with 1 show ?thesis
      using digit_not_underscore [of "n mod 10"] by (subst toString.simps) auto
  qed
qed

lemma toString_inj: "toString n = toString m \<Longrightarrow> n = m"
proof (induction n arbitrary: m rule: toString.induct)
  case (1 n)
  show ?case
  proof (cases "n < 10")
    case n: True
    show ?thesis
    proof (cases "m < 10")
      case True
      with n "1.prems" show ?thesis
        by (simp add: toString.simps [of n] toString.simps [of m] digit_inj)
    next
      case False
      with n "1.prems" toString_nonempty [of "m div 10"] show ?thesis
        by (simp add: toString.simps [of n] toString.simps [of m])
    qed
  next
    case n: False
    show ?thesis
    proof (cases "m < 10")
      case True
      with n "1.prems" toString_nonempty [of "n div 10"] show ?thesis
        by (simp add: toString.simps [of n] toString.simps [of m])
    next
      case False
      with n "1.prems" have a: "toString (n div 10) = toString (m div 10)"
        and b: "digit (n mod 10) = digit (m mod 10)"
        by (simp_all add: toString.simps [of n] toString.simps [of m])
      from "1.IH" [OF n a] have "n div 10 = m div 10" .
      moreover from b have "n mod 10 = m mod 10" by (simp add: digit_inj)
      ultimately show ?thesis by (metis div_mult_mod_eq)
    qed
  qed
qed

text \<open>Two strings that end in a separator and a separator-free tail agree part by part.\<close>

lemma split_at_last:
  assumes "xs @ a # ds = ys @ a # es" and "a \<notin> set ds" and "a \<notin> set es"
  shows "xs = ys \<and> ds = es"
proof -
  have "rev ds @ a # rev xs = rev es @ a # rev ys"
    using assms(1) by (metis rev_append rev.simps(2) append_assoc append_Cons append_Nil)
  then have "takeWhile (\<lambda>c. c \<noteq> a) (rev ds @ a # rev xs)
           = takeWhile (\<lambda>c. c \<noteq> a) (rev es @ a # rev ys)" by simp
  moreover have "takeWhile (\<lambda>c. c \<noteq> a) (rev ds @ a # rev xs) = rev ds"
    using assms(2) by (subst takeWhile_append2) auto
  moreover have "takeWhile (\<lambda>c. c \<noteq> a) (rev es @ a # rev ys) = rev es"
    using assms(3) by (subst takeWhile_append2) auto
  ultimately have "ds = es" by simp
  with assms(1) show ?thesis by simp
qed

lemma makeToken_inj:
  assumes "makeToken p n r = makeToken q m t"
  shows "p = q \<and> n = m \<and> r = t"
proof -
  from assms have e: "(p @ ''_'' @ toString n) @ CHR ''_'' # toString r
                    = (q @ ''_'' @ toString m) @ CHR ''_'' # toString t"
    by (simp add: makeToken_def)
  from split_at_last [OF e toString_no_underscore toString_no_underscore]
  have 1: "p @ CHR ''_'' # toString n = q @ CHR ''_'' # toString m"
    and 2: "toString r = toString t" by simp_all
  from split_at_last [OF 1 toString_no_underscore toString_no_underscore]
  have "p = q" and "toString n = toString m" by simp_all
  with 2 show ?thesis by (simp add: toString_inj)
qed

lemma makeToken_valid:
  "list_all segChar prefix \<Longrightarrow> validSegment (makeToken prefix n r)"
  by (simp add: validSegment_def makeToken_def toString_segChar segChar_def)

lemma responsePath_inj: "responsePath bus t = responsePath bus u \<Longrightarrow> t = u"
  by (simp add: responsePath_def)

section \<open>Token generator\<close>

lemma generateMany_eq:
  "generateMany prefix n s
     = map (\<lambda>i. makeToken prefix i (entropy s i)) [counter s ..< counter s + n]"
proof (induction n arbitrary: s)
  case 0
  show ?case by simp
next
  case (Suc n)
  have "[counter s ..< counter s + Suc n] = counter s # [Suc (counter s) ..< Suc (counter s) + n]"
    by (simp add: upt_rec)
  then show ?case
    by (simp add: Suc.IH generateToken_def Let_def)
qed

text \<open>
  Claim C8 (token uniqueness). Whatever the state of the generator and whatever the random
  suffixes, N successive calls of \<^verbatim>\<open>generateToken(prefix)\<close> yield N tokens that are
  pairwise distinct, for every N; and when the prefix is written in the characters of a
  path element, each token is a valid bus-object-path element.
\<close>

theorem token_uniqueness:
  assumes "list_all segChar prefix"
  shows "length (generateMany prefix n s) = n
       \<and> distinct (generateMany prefix n s)
       \<and> list_all validSegment (generateMany prefix n s)"
proof -
  have "inj_on (\<lambda>i. makeToken prefix i (entropy s i)) (set [counter s ..< counter s + n])"
    by (rule inj_onI) (simp add: makeToken_inj)
  then have "distinct (generateMany prefix n s)"
    by (simp add: generateMany_eq distinct_map)
  moreover have "list_all validSegment (generateMany prefix n s)"
    using assms by (simp add: generateMany_eq list_all_iff makeToken_valid)
  ultimately show ?thesis by (simp add: generateMany_eq)
qed

theorem token_uniqueness_witness:
  "list_all segChar ''request''
   \<and> generateMany ''request'' 3 (newPortal ''bus'' (\<lambda>n. 7))
       = [''request_0_7'', ''request_1_7'', ''request_2_7'']
   \<and> distinct (generateMany ''request'' 3 (newPortal ''bus'' (\<lambda>n. 7)))
   \<and> list_all validSegment (generateMany ''request'' 3 (newPortal ''bus'' (\<lambda>n. 7)))"
proof -
  have h: "list_all segChar ''request''" by (simp add: segChar_def)
  have e: "generateMany ''request'' 3 (newPortal ''bus'' (\<lambda>n. 7))
       = [''request_0_7'', ''request_1_7'', ''request_2_7'']"
    by code_simp
  from token_uniqueness [OF h, of 3 "newPortal ''bus'' (\<lambda>n. 7)"] h e show ?thesis by simp
qed

section \<open>The request correlator keeps its table and its futures in step\<close>

lemma update_fresh: "k \<notin> fst ` set al \<Longrightarrow> AList.update k v al = al @ [(k, v)]"
  by (induction al) auto

lemma failAll_length [simp]: "length (failAll es fs) = length fs"
  by (induction es fs rule: failAll.induct) simp_all

lemma failAll_nth:
  "g < length fs \<Longrightarrow>
   failAll es fs ! g = (if g \<in> snd ` set es then Rejected ConnectionError else fs ! g)"
proof (induction es fs rule: failAll.induct)
  case (1 fs)
  show ?case by simp
next
  case (2 p f es fs)
  then show ?case by (auto simp: nth_list_update)
qed

lemma makeRequest_fields:
  "fst (makeRequest who sendFn s) = length (futures s)"
  "counter (snd (makeRequest who sendFn s)) = counter s + 1"
  "busName (snd (makeRequest who sendFn s)) = busName s"
  "entropy (snd (makeRequest who sendFn s)) = entropy s"
  "closed (snd (makeRequest who sendFn s)) = closed s"
  by (simp_all add: makeRequest_def generateToken_def Let_def)

lemma makeRequest_open:
  assumes "\<not> closed s"
  shows "pending (snd (makeRequest who sendFn s))
     = AList.update (responsePath (busName s) (makeToken ''request'' (counter s) (entropy s (counter s))))
         (length (futures s)) (pending s)"
    and "futures (snd (makeRequest who sendFn s)) = futures s @ [Unsettled]"
    and "wire (snd (makeRequest who sendFn s))
     = wire s @ [Sent who (sendFn (fst (generateToken ''request'' s)))]"
  using assms by (simp_all add: makeRequest_def generateToken_def Let_def)

lemma makeRequest_closed:
  assumes "closed s"
  shows "pending (snd (makeRequest who sendFn s)) = pending s"
    and "futures (snd (makeRequest who sendFn s)) = futures s @ [Rejected ConnectionError]"
    and "wire (snd (makeRequest who sendFn s)) = wire s"
  using assms by (simp_all add: makeRequest_def generateToken_def Let_def)

lemma makeRequest_length:
  "length (futures (snd (makeRequest who sendFn s))) = Suc (length (futures s))"
  by (simp add: makeRequest_def generateToken_def Let_def)

lemma makeRequest_old_futures:
  "g < length (futures s) \<Longrightarrow> futures (snd (makeRequest who sendFn s)) ! g = futures s ! g"
  by (simp add: makeRequest_def generateToken_def Let_def nth_append)

lemma update_subset: "set (AList.update k v al) \<subseteq> insert (k, v) (set al)"
  by (induction al) auto

lemma makeRequest_pending_sub:
  assumes "(q, g) \<in> set (pending (snd (makeRequest who sendFn s)))"
  shows "(q, g) \<in> set (pending s)
       \<or> q = responsePath (busName s) (makeToken ''request'' (counter s) (entropy s (counter s)))
         \<and> g = length (futures s)"
proof (cases "closed s")
  case True
  with assms show ?thesis by (simp add: makeRequest_closed)
next
  case False
  from assms update_subset show ?thesis
    unfolding makeRequest_open(1) [OF False] by fastforce
qed

lemma corrInvI:
  assumes "distinct (map fst (pending s))" and "distinct (map snd (pending s))"
    and "\<And>p f. (p, f) \<in> set (pending s) \<Longrightarrow> f < length (futures s)"
    and "\<And>p f. (p, f) \<in> set (pending s) \<Longrightarrow> futures s ! f = Unsettled"
    and "\<And>p f. (p, f) \<in> set (pending s) \<Longrightarrow> issued s p"
    and "\<And>f. f < length (futures s) \<Longrightarrow> futures s ! f = Unsettled \<Longrightarrow> \<exists>p. (p, f) \<in> set (pending s)"
  shows "corrInv s"
  unfolding corrInv_def
proof (intro conjI)
  show "\<forall>(p, f)\<in>set (pending s). f < length (futures s) \<and> futures s ! f = Unsettled \<and> issued s p"
    using assms(3,4,5) by blast
  show "\<forall>f<length (futures s). futures s ! f = Unsettled \<longrightarrow> f \<in> snd ` set (pending s)"
    using assms(6) by force
qed (rule assms)+

lemma corrInv_keys: "corrInv s \<Longrightarrow> distinct (map fst (pending s))"
  by (simp add: corrInv_def)

lemma corrInv_vals: "corrInv s \<Longrightarrow> distinct (map snd (pending s))"
  by (simp add: corrInv_def)

lemma corrInv_entry:
  assumes "corrInv s" and "(p, f) \<in> set (pending s)"
  shows "f < length (futures s)" and "futures s ! f = Unsettled" and "issued s p"
  using assms unfolding corrInv_def by blast+

lemma corrInv_unsettled:
  assumes "corrInv s" and "f < length (futures s)" and "futures s ! f = Unsettled"
  shows "\<exists>p. (p, f) \<in> set (pending s)"
proof -
  from assms have "f \<in> snd ` set (pending s)" unfolding corrInv_def by blast
  then show ?thesis by force
qed

lemma fresh_path:
  assumes "\<And>p f. (p, f) \<in> set (pending s) \<Longrightarrow> issued s p"
  shows "responsePath (busName s) (makeToken ''request'' (counter s) (entropy s (counter s)))
           \<notin> fst ` set (pending s)"
proof
  let ?p = "responsePath (busName s) (makeToken ''request'' (counter s) (entropy s (counter s)))"
  assume "?p \<in> fst ` set (pending s)"
  then obtain f where "(?p, f) \<in> set (pending s)" by auto
  then have "issued s ?p" by (rule assms)
  then obtain i where i: "i < counter s"
    and "?p = responsePath (busName s) (makeToken ''request'' i (entropy s i))"
    unfolding issued_def by blast
  then have "makeToken ''request'' (counter s) (entropy s (counter s))
       = makeToken ''request'' i (entropy s i)" by (simp add: responsePath_inj)
  then have "counter s = i" by (simp add: makeToken_inj)
  with i show False by simp
qed

lemma issued_makeRequest:
  "issued s p \<Longrightarrow> issued (snd (makeRequest who sendFn s)) p"
proof -
  assume "issued s p"
  then obtain i where "i < counter s"
    and "p = responsePath (busName s) (makeToken ''request'' i (entropy s i))"
    unfolding issued_def by blast
  then have "i < counter s + 1 \<and> p = responsePath (busName s) (makeToken ''request'' i (entropy s i))"
    by simp
  then show ?thesis unfolding issued_def makeRequest_fields by blast
qed

lemma issued_makeRequest_new:
  "issued (snd (makeRequest who sendFn s))
     (responsePath (busName s) (makeToken ''request'' (counter s) (entropy s (counter s))))"
  unfolding issued_def makeRequest_fields by auto

lemma corrInv_makeRequest:
  assumes "corrInv s"
  shows "corrInv (snd (makeRequest who sendFn s))"
proof (cases "closed s")
  case False
  let ?p = "responsePath (busName s) (makeToken ''request'' (counter s) (entropy s (counter s)))"
  let ?n = "length (futures s)"
  let ?s = "snd (makeRequest who sendFn s)"
  have fresh: "?p \<notin> fst ` set (pending s)"
    using corrInv_entry(3) [OF assms] by (rule fresh_path)
  have pend: "pending ?s = pending s @ [(?p, ?n)]"
    by (simp add: makeRequest_open [OF False] update_fresh [OF fresh])
  have futs: "futures ?s = futures s @ [Unsettled]" by (simp add: makeRequest_open [OF False])
  have lt: "\<And>q g. (q, g) \<in> set (pending s) \<Longrightarrow> g < ?n"
    using corrInv_entry(1) [OF assms] .
  show ?thesis
  proof (rule corrInvI)
    show "distinct (map fst (pending ?s))"
      using corrInv_keys [OF assms] fresh by (simp add: pend)
    show "distinct (map snd (pending ?s))"
      using corrInv_vals [OF assms] by (auto simp: pend dest: lt)
  next
    fix q g assume "(q, g) \<in> set (pending ?s)"
    then consider "(q, g) \<in> set (pending s)" | "q = ?p" "g = ?n" by (auto simp: pend)
    note cases = this
    show "g < length (futures ?s)"
      using cases by cases (auto simp: futs dest: lt less_SucI)
    show "futures ?s ! g = Unsettled"
      using cases corrInv_entry(2) [OF assms] by cases (auto simp: futs nth_append dest: lt)
    show "issued ?s q"
      using cases corrInv_entry(3) [OF assms] issued_makeRequest issued_makeRequest_new
      by cases blast+
  next
    fix g assume g: "g < length (futures ?s)" and u: "futures ?s ! g = Unsettled"
    show "\<exists>q. (q, g) \<in> set (pending ?s)"
    proof (cases "g = ?n")
      case True
      then show ?thesis by (auto simp: pend)
    next
      case False
      with g have "g < ?n" by (simp add: futs)
      moreover from this u have "futures s ! g = Unsettled" by (simp add: futs nth_append)
      ultimately obtain q where "(q, g) \<in> set (pending s)"
        using corrInv_unsettled [OF assms] by blast
      then show ?thesis by (auto simp: pend)
    qed
  qed
next
  case True
  let ?n = "length (futures s)"
  let ?s = "snd (makeRequest who sendFn s)"
  have pend: "pending ?s = pending s" by (simp add: makeRequest_closed [OF True])
  have futs: "futures ?s = futures s @ [Rejected ConnectionError]"
    by (simp add: makeRequest_closed [OF True])
  have lt: "\<And>q g. (q, g) \<in> set (pending s) \<Longrightarrow> g < ?n"
    using corrInv_entry(1) [OF assms] .
  show ?thesis
  proof (rule corrInvI)
    show "distinct (map fst (pending ?s))"
      using corrInv_keys [OF assms] by (simp add: pend)
    show "distinct (map snd (pending ?s))"
      using corrInv_vals [OF assms] by (simp add: pend)
  next
    fix q g assume "(q, g) \<in> set (pending ?s)"
    then have old: "(q, g) \<in> set (pending s)" by (simp add: pend)
    show "g < length (futures ?s)" using lt [OF old] by (simp add: futs)
    show "futures ?s ! g = Unsettled"
      using lt [OF old] corrInv_entry(2) [OF assms old] by (simp add: futs nth_append)
    show "issued ?s q" using corrInv_entry(3) [OF assms old] by (rule issued_makeRequest)
  next
    fix g assume g: "g < length (futures ?s)" and u: "futures ?s ! g = Unsettled"
    have "g \<noteq> ?n" using u by (auto simp: futs)
    with g have g': "g < ?n" by (simp add: futs)
    with u have "futures s ! g = Unsettled" by (simp add: futs nth_append)
    with corrInv_unsettled [OF assms g'] show "\<exists>q. (q, g) \<in> set (pending ?s)"
      by (simp add: pend)
  qed
qed

lemma settle_settled: "settle st res \<noteq> Unsettled"
  by (simp add: settle_def)

lemma delete_set:
  assumes "distinct (map fst al)" and "map_of al p = Some f"
  shows "set (AList.delete p al) = set al - {(p, f)}"
proof -
  have mem: "(p, f) \<in> set al" using assms(2) by (rule map_of_SomeD)
  have "\<And>g. (p, g) \<in> set al \<Longrightarrow> g = f"
    using assms(1) mem eq_key_imp_eq_value by fastforce
  then show ?thesis by (auto simp: AList.delete_eq)
qed

lemma issued_deliver: "issued (deliver p st res s) q = issued s q"
  by (simp add: issued_def deliver_def split: option.split)

lemma deliver_Some:
  "map_of (pending s) p = Some f \<Longrightarrow>
   pending (deliver p st res s) = AList.delete p (pending s) \<and>
   futures (deliver p st res s) = (futures s)[f := settle st res]"
  by (simp add: deliver_def)

lemma deliver_None: "map_of (pending s) p = None \<Longrightarrow> deliver p st res s = s"
  by (simp add: deliver_def)

lemma corrInv_deliver:
  assumes "corrInv s"
  shows "corrInv (deliver p st res s)"
proof (cases "map_of (pending s) p")
  case None
  then show ?thesis using assms by (simp add: deliver_None)
next
  case (Some f)
  let ?s = "deliver p st res s"
  have dk: "distinct (map fst (pending s))" using assms by (rule corrInv_keys)
  have dv: "distinct (map snd (pending s))" using assms by (rule corrInv_vals)
  have mem: "(p, f) \<in> set (pending s)" using Some by (rule map_of_SomeD)
  have pend: "pending ?s = AList.delete p (pending s)"
    and futs: "futures ?s = (futures s)[f := settle st res]"
    using deliver_Some [OF Some] by simp_all
  have st: "set (pending ?s) = set (pending s) - {(p, f)}"
    unfolding pend using dk Some by (rule delete_set)
  have other: "g \<noteq> f" if "(q, g) \<in> set (pending s)" and "(q, g) \<noteq> (p, f)" for q g
  proof
    assume "g = f"
    with that(1) mem dv have "(q, g) = (p, f)"
      by (metis distinct_map inj_onD snd_conv)
    with that(2) show False by simp
  qed
  show ?thesis
  proof (rule corrInvI)
    show "distinct (map fst (pending ?s))"
      unfolding pend using dk by (simp add: AList.distinct_delete)
    show "distinct (map snd (pending ?s))"
      unfolding pend using dv by (simp add: AList.delete_eq distinct_map_filter)
  next
    fix q g assume "(q, g) \<in> set (pending ?s)"
    then have in_s: "(q, g) \<in> set (pending s)" and ne: "(q, g) \<noteq> (p, f)"
      unfolding st by auto
    from other [OF in_s ne] have gf: "g \<noteq> f" .
    show "g < length (futures ?s)"
      using corrInv_entry(1) [OF assms in_s] by (simp add: futs)
    show "futures ?s ! g = Unsettled"
      using corrInv_entry(2) [OF assms in_s] gf by (simp add: futs)
    show "issued ?s q"
      using corrInv_entry(3) [OF assms in_s] by (simp add: issued_deliver)
  next
    fix g assume g: "g < length (futures ?s)" and u: "futures ?s ! g = Unsettled"
    have gf: "g \<noteq> f"
    proof
      assume "g = f"
      with g u have "settle st res = Unsettled" by (simp add: futs)
      then show False by (simp add: settle_settled)
    qed
    from g have g': "g < length (futures s)" by (simp add: futs)
    from u gf have "futures s ! g = Unsettled" by (simp add: futs)
    with corrInv_unsettled [OF assms g'] obtain q where "(q, g) \<in> set (pending s)" by blast
    with gf have "(q, g) \<in> set (pending ?s)" unfolding st by simp
    then show "\<exists>q. (q, g) \<in> set (pending ?s)" ..
  qed
qed

lemma connectionLost_nth:
  assumes "corrInv s" and "g < length (futures s)"
  shows "futures (connectionLost s) ! g
       = (if futures s ! g = Unsettled then Rejected ConnectionError else futures s ! g)"
proof (cases "futures s ! g = Unsettled")
  case True
  with corrInv_unsettled [OF assms] have "g \<in> snd ` set (pending s)" by force
  with True assms(2) show ?thesis by (simp add: connectionLost_def failAll_nth)
next
  case False
  have "g \<notin> snd ` set (pending s)"
  proof
    assume "g \<in> snd ` set (pending s)"
    then obtain q where "(q, g) \<in> set (pending s)" by force
    with corrInv_entry(2) [OF assms(1)] False show False by blast
  qed
  with False assms(2) show ?thesis by (simp add: connectionLost_def failAll_nth)
qed

lemma corrInv_connectionLost:
  assumes "corrInv s"
  shows "corrInv (connectionLost s)"
proof (rule corrInvI)
  fix g assume g: "g < length (futures (connectionLost s))"
    and u: "futures (connectionLost s) ! g = Unsettled"
  from g have "g < length (futures s)" by (simp add: connectionLost_def)
  from connectionLost_nth [OF assms this] u have False by (simp split: if_splits)
  then show "\<exists>p. (p, g) \<in> set (pending (connectionLost s))" ..
qed (simp_all add: connectionLost_def)

lemma corrInv_newPortal: "corrInv (newPortal bus rnd)"
  by (simp add: corrInv_def newPortal_def)

lemma corrInv_pstep: "corrInv s \<Longrightarrow> corrInv (pstep e s)"
  by (cases e) (simp_all add: corrInv_makeRequest corrInv_deliver corrInv_connectionLost)

lemma corrInv_fold: "corrInv s \<Longrightarrow> corrInv (fold pstep es s)"
  by (induction es arbitrary: s) (simp_all add: corrInv_pstep)

lemma corrInv_prun: "corrInv s \<Longrightarrow> corrInv (prun es s)"
  by (simp add: prun_def corrInv_fold)

section \<open>Request correlation\<close>

lemma ownEntryI:
  assumes "f < length (futures s)" and "issued s p"
    and "\<And>q g. (q, g) \<in> set (pending s) \<Longrightarrow> (q = p) = (g = f)"
  shows "ownEntry p f s"
  unfolding ownEntry_def using assms(1,2) by (simp add: split_def assms(3))

lemma ownEntryD:
  assumes "ownEntry p f s"
  shows "f < length (futures s)" and "issued s p"
    and "\<And>q g. (q, g) \<in> set (pending s) \<Longrightarrow> (q = p) = (g = f)"
proof -
  show "f < length (futures s)" and "issued s p"
    using assms by (simp_all add: ownEntry_def)
  fix q g assume "(q, g) \<in> set (pending s)"
  moreover from assms have "\<forall>x \<in> set (pending s). (fst x = p) = (snd x = f)"
    by (simp add: ownEntry_def split_def)
  ultimately show "(q = p) = (g = f)" by fastforce
qed

lemma issued_not_next:
  assumes "issued s p"
  shows "p \<noteq> responsePath (busName s) (makeToken ''request'' (counter s) (entropy s (counter s)))"
proof
  assume e: "p = responsePath (busName s) (makeToken ''request'' (counter s) (entropy s (counter s)))"
  from assms obtain i where i: "i < counter s"
    and "p = responsePath (busName s) (makeToken ''request'' i (entropy s i))"
    unfolding issued_def by blast
  with e have "responsePath (busName s) (makeToken ''request'' (counter s) (entropy s (counter s)))
     = responsePath (busName s) (makeToken ''request'' i (entropy s i))" by simp
  then have "makeToken ''request'' (counter s) (entropy s (counter s))
     = makeToken ''request'' i (entropy s i)" by (rule responsePath_inj)
  then have "counter s = i" by (simp add: makeToken_inj)
  with i show False by simp
qed

lemma ownEntry_makeRequest_new:
  assumes "corrInv s"
  shows "ownEntry (path (fst (generateToken ''request'' s))) (fst (makeRequest who sendFn s))
           (snd (makeRequest who sendFn s))"
proof -
  let ?p = "responsePath (busName s) (makeToken ''request'' (counter s) (entropy s (counter s)))"
  let ?n = "length (futures s)"
  have p: "path (fst (generateToken ''request'' s)) = ?p"
    by (simp add: generateToken_def Let_def)
  have "ownEntry ?p ?n (snd (makeRequest who sendFn s))"
  proof (rule ownEntryI)
    show "?n < length (futures (snd (makeRequest who sendFn s)))"
      by (simp add: makeRequest_length)
    show "issued (snd (makeRequest who sendFn s)) ?p" by (rule issued_makeRequest_new)
  next
    fix q g assume "(q, g) \<in> set (pending (snd (makeRequest who sendFn s)))"
    then consider "(q, g) \<in> set (pending s)" | "q = ?p" "g = ?n"
      using makeRequest_pending_sub by blast
    then show "(q = ?p) = (g = ?n)"
    proof cases
      case 1
      then have "g < ?n" by (rule corrInv_entry(1) [OF assms])
      moreover from 1 have "issued s q" by (rule corrInv_entry(3) [OF assms])
      then have "q \<noteq> ?p" by (rule issued_not_next)
      ultimately show ?thesis by simp
    next
      case 2
      then show ?thesis by simp
    qed
  qed
  then show ?thesis by (simp only: p makeRequest_fields(1))
qed

lemma issued_connectionLost: "issued (connectionLost s) q = issued s q"
  by (simp add: issued_def connectionLost_def)

lemma deliver_pending_subset: "set (pending (deliver q st res s)) \<subseteq> set (pending s)"
  by (auto simp: deliver_def AList.delete_eq split: option.split)

lemma deliver_length: "length (futures (deliver q st res s)) = length (futures s)"
  by (simp add: deliver_def split: option.split)

lemma ownEntry_pstep:
  assumes "corrInv s" and "ownEntry p f s"
  shows "ownEntry p f (pstep e s)"
proof (cases e)
  case (MakeRequest who sendFn)
  let ?q = "responsePath (busName s) (makeToken ''request'' (counter s) (entropy s (counter s)))"
  let ?n = "length (futures s)"
  note own = ownEntryD [OF assms(2)]
  have "ownEntry p f (snd (makeRequest who sendFn s))"
  proof (rule ownEntryI)
    show "f < length (futures (snd (makeRequest who sendFn s)))"
      using own(1) by (simp add: makeRequest_length)
    show "issued (snd (makeRequest who sendFn s)) p"
      using own(2) by (rule issued_makeRequest)
  next
    fix q g assume "(q, g) \<in> set (pending (snd (makeRequest who sendFn s)))"
    then consider "(q, g) \<in> set (pending s)" | "q = ?q" "g = ?n"
      using makeRequest_pending_sub by blast
    then show "(q = p) = (g = f)"
    proof cases
      case 1
      then show ?thesis by (rule own(3))
    next
      case 2
      from own(2) have "p \<noteq> ?q" by (rule issued_not_next)
      with 2 own(1) show ?thesis by auto
    qed
  qed
  then show ?thesis by (simp add: MakeRequest)
next
  case (Deliver q st res)
  have "ownEntry p f (deliver q st res s)"
  proof (rule ownEntryI)
    show "f < length (futures (deliver q st res s))"
      using ownEntryD(1) [OF assms(2)] by (simp add: deliver_length)
    show "issued (deliver q st res s) p"
      using ownEntryD(2) [OF assms(2)] by (simp add: issued_deliver)
  next
    fix r g assume "(r, g) \<in> set (pending (deliver q st res s))"
    then have "(r, g) \<in> set (pending s)" using deliver_pending_subset by blast
    then show "(r = p) = (g = f)" by (rule ownEntryD(3) [OF assms(2)])
  qed
  then show ?thesis by (simp add: Deliver)
next
  case Drop
  have "ownEntry p f (connectionLost s)"
  proof (rule ownEntryI)
    show "f < length (futures (connectionLost s))"
      using ownEntryD(1) [OF assms(2)] by (simp add: connectionLost_def)
    show "issued (connectionLost s) p"
      using ownEntryD(2) [OF assms(2)] by (simp add: issued_connectionLost)
  next
    fix r g assume "(r, g) \<in> set (pending (connectionLost s))"
    then show "(r = p) = (g = f)" by (simp add: connectionLost_def)
  qed
  then show ?thesis by (simp add: Drop)
qed

lemma ownEntry_fold:
  "corrInv s \<Longrightarrow> ownEntry p f s \<Longrightarrow> ownEntry p f (fold pstep es s)"
  by (induction es arbitrary: s) (simp_all add: corrInv_pstep ownEntry_pstep)

text \<open>In a reachable state, a request made earlier still owns its path.\<close>

lemma request_owns_path:
  assumes "s0 = prun es0 (newPortal bus rnd)"
    and "s = prun es (snd (makeRequest who sendFn s0))"
  shows "corrInv s"
    and "ownEntry (path (fst (generateToken ''request'' s0))) (fst (makeRequest who sendFn s0)) s"
proof -
  have c0: "corrInv s0" unfolding assms(1) by (rule corrInv_prun [OF corrInv_newPortal])
  from corrInv_makeRequest [OF c0] show "corrInv s"
    unfolding assms(2) by (rule corrInv_prun)
  from corrInv_makeRequest [OF c0] ownEntry_makeRequest_new [OF c0]
  show "ownEntry (path (fst (generateToken ''request'' s0))) (fst (makeRequest who sendFn s0)) s"
    unfolding assms(2) prun_def by (rule ownEntry_fold)
qed

lemma deliver_own_unsettled:
  assumes "corrInv s" and "ownEntry p f s" and "settlementOf s f = Unsettled"
  shows "settlementOf (deliver p st res s) f = settle st res"
proof -
  note f = ownEntryD(1) [OF assms(2)] and own = ownEntryD(3) [OF assms(2)]
  from assms(3) f have "futures s ! f = Unsettled" by (simp add: settlementOf_def)
  with corrInv_unsettled [OF assms(1) f] obtain q where q: "(q, f) \<in> set (pending s)" by blast
  from own [OF q] q have "(p, f) \<in> set (pending s)" by simp
  with corrInv_keys [OF assms(1)] have "map_of (pending s) p = Some f" by simp
  with f show ?thesis by (simp add: deliver_def settlementOf_def)
qed

lemma deliver_own_others:
  assumes "ownEntry p f s" and "g \<noteq> f"
  shows "settlementOf (deliver p st res s) g = settlementOf s g"
proof (cases "map_of (pending s) p")
  case None
  then show ?thesis by (simp add: deliver_None)
next
  case (Some h)
  then have "(p, h) \<in> set (pending s)" by (rule map_of_SomeD)
  from ownEntryD(3) [OF assms(1) this] have "h = f" by simp
  with Some assms(2) show ?thesis by (simp add: deliver_def settlementOf_def)
qed

lemma deliver_other_paths:
  assumes "q \<noteq> p"
  shows "map_of (pending (deliver p st res s)) q = map_of (pending s) q"
  using assms by (simp add: deliver_def AList.delete_conv split: option.split)

lemma deliver_twice: "deliver p st2 res2 (deliver p st1 res1 s) = deliver p st1 res1 s"
proof (cases "map_of (pending s) p")
  case None
  then show ?thesis by (simp add: deliver_None)
next
  case (Some f)
  then have "map_of (pending (deliver p st1 res1 s)) p = None"
    by (simp add: deliver_def AList.delete_conv)
  then show ?thesis by (rule deliver_None)
qed

lemma deliver_removes: "map_of (pending (deliver p st res s)) p = None"
  by (simp add: deliver_def AList.delete_conv split: option.split)

text \<open>
  Claim C5 (request correlation). Take any history of the correlator, a request made
  after it, and any further history, so that any number of requests may be pending at
  once. A response delivered on the path derived from that request's token settles the
  request's own future, if it is still unsettled, with the outcome of the response; it
  leaves the state of every other future as it was, and the pending entry of every other
  path in place.
\<close>

theorem response_settles_only_its_request:
  assumes "s0 = prun es0 (newPortal bus rnd)"
    and "s = prun es (snd (makeRequest who sendFn s0))"
    and "req = fst (generateToken ''request'' s0)"
    and "f = fst (makeRequest who sendFn s0)"
    and "s' = deliver (path req) st res s"
  shows "(settlementOf s f = Unsettled \<longrightarrow> settlementOf s' f = settle st res)
       \<and> (\<forall>g. g \<noteq> f \<longrightarrow> settlementOf s' g = settlementOf s g)
       \<and> (\<forall>q. q \<noteq> path req \<longrightarrow> map_of (pending s') q = map_of (pending s) q)"
proof -
  note own = request_owns_path [OF assms(1,2), folded assms(3,4)]
  have 1: "settlementOf s f = Unsettled \<longrightarrow> settlementOf s' f = settle st res"
    unfolding assms(5) using deliver_own_unsettled [OF own] by blast
  have 2: "\<forall>g. g \<noteq> f \<longrightarrow> settlementOf s' g = settlementOf s g"
    unfolding assms(5) using deliver_own_others [OF own(2)] by blast
  have 3: "\<forall>q. q \<noteq> path req \<longrightarrow> map_of (pending s') q = map_of (pending s) q"
    unfolding assms(5) using deliver_other_paths by blast
  from 1 2 3 show ?thesis by (intro conjI)
qed

theorem response_settles_only_its_request_witness:
  "settlementOf (prun [MakeRequest 0 (\<lambda>r. Start ''p'' [] (token r))]
       (snd (makeRequest 0 (\<lambda>r. SelectDevices ''p'' (token r) 3)
          (prun [MakeRequest 0 (\<lambda>r. CreateSession (token r) ''s'')]
             (newPortal ''bus'' (\<lambda>n. 7)))))) 1 = Unsettled
 \<and> settlementOf (deliver ''bus/request_1_7'' 0 []
       (prun [MakeRequest 0 (\<lambda>r. Start ''p'' [] (token r))]
         (snd (makeRequest 0 (\<lambda>r. SelectDevices ''p'' (token r) 3)
            (prun [MakeRequest 0 (\<lambda>r. CreateSession (token r) ''s'')]
               (newPortal ''bus'' (\<lambda>n. 7))))))) 1 = Fulfilled []
 \<and> settlementOf (deliver ''bus/request_1_7'' 0 []
       (prun [MakeRequest 0 (\<lambda>r. Start ''p'' [] (token r))]
         (snd (makeRequest 0 (\<lambda>r. SelectDevices ''p'' (token r) 3)
            (prun [MakeRequest 0 (\<lambda>r. CreateSession (token r) ''s'')]
               (newPortal ''bus'' (\<lambda>n. 7))))))) 0 = Unsettled
 \<and> settlementOf (deliver ''bus/request_1_7'' 0 []
       (prun [MakeRequest 0 (\<lambda>r. Start ''p'' [] (token r))]
         (snd (makeRequest 0 (\<lambda>r. SelectDevices ''p'' (token r) 3)
            (prun [MakeRequest 0 (\<lambda>r. CreateSession (token r) ''s'')]
               (newPortal ''bus'' (\<lambda>n. 7))))))) 2 = Unsettled"
proof -
  let ?init = "prun [MakeRequest 0 (\<lambda>r. CreateSession (token r) ''s'')] (newPortal ''bus'' (\<lambda>n. 7))"
  let ?send = "\<lambda>r. SelectDevices ''p'' (token r) 3"
  let ?mid = "prun [MakeRequest 0 (\<lambda>r. Start ''p'' [] (token r))] (snd (makeRequest 0 ?send ?init))"
  have p: "path (fst (generateToken ''request'' ?init)) = ''bus/request_1_7''" by code_simp
  have f: "fst (makeRequest 0 ?send ?init) = 1" by code_simp
  have u: "settlementOf ?mid 1 = Unsettled" "settlementOf ?mid 0 = Unsettled"
    "settlementOf ?mid 2 = Unsettled" by code_simp+
  have e: "settle 0 [] = Fulfilled []" by (simp add: settle_def)
  from response_settles_only_its_request
      [where es = "[MakeRequest 0 (\<lambda>r. Start ''p'' [] (token r))]" and sendFn = ?send
         and who = 0 and ?es0.0 = "[MakeRequest 0 (\<lambda>r. CreateSession (token r) ''s'')]"
         and bus = "''bus''" and rnd = "\<lambda>n. 7" and st = 0 and res = "[]",
       OF refl refl refl refl refl]
  show ?thesis unfolding p f using u e by simp
qed

text \<open>
  Claim C6 (at-most-once settlement). The first response on the path of a request whose
  future is unsettled settles the future and removes the pending entry, whether the
  response is a success or a failure; a second response on the same path finds no
  entry and changes nothing: the future keeps its first outcome, and no error is raised.
\<close>

theorem second_response_ignored:
  assumes "s0 = prun es0 (newPortal bus rnd)"
    and "s = prun es (snd (makeRequest who sendFn s0))"
    and "req = fst (generateToken ''request'' s0)"
    and "f = fst (makeRequest who sendFn s0)"
    and "settlementOf s f = Unsettled"
    and "s1 = deliver (path req) st1 res1 s"
    and "s2 = deliver (path req) st2 res2 s1"
  shows "settlementOf s1 f = settle st1 res1
       \<and> map_of (pending s1) (path req) = None
       \<and> s2 = s1"
proof -
  note own = request_owns_path [OF assms(1,2), folded assms(3,4)]
  have 1: "settlementOf s1 f = settle st1 res1"
    unfolding assms(6) by (rule deliver_own_unsettled [OF own assms(5)])
  have 2: "map_of (pending s1) (path req) = None"
    unfolding assms(6) by (rule deliver_removes)
  have 3: "s2 = s1" unfolding assms(6,7) by (rule deliver_twice)
  from 1 2 3 show ?thesis by (intro conjI)
qed

theorem second_response_ignored_witness:
  "settlementOf (prun [MakeRequest 0 (\<lambda>r. Start ''p'' [] (token r))]
       (snd (makeRequest 0 (\<lambda>r. SelectDevices ''p'' (token r) 3)
          (prun [MakeRequest 0 (\<lambda>r. CreateSession (token r) ''s'')]
             (newPortal ''bus'' (\<lambda>n. 7)))))) 1 = Unsettled
 \<and> settlementOf (deliver ''bus/request_1_7'' 0 []
       (prun [MakeRequest 0 (\<lambda>r. Start ''p'' [] (token r))]
         (snd (makeRequest 0 (\<lambda>r. SelectDevices ''p'' (token r) 3)
            (prun [MakeRequest 0 (\<lambda>r. CreateSession (token r) ''s'')]
               (newPortal ''bus'' (\<lambda>n. 7))))))) 1 = Fulfilled []
 \<and> deliver ''bus/request_1_7'' 2 []
      (deliver ''bus/request_1_7'' 0 []
       (prun [MakeRequest 0 (\<lambda>r. Start ''p'' [] (token r))]
         (snd (makeRequest 0 (\<lambda>r. SelectDevices ''p'' (token r) 3)
            (prun [MakeRequest 0 (\<lambda>r. CreateSession (token r) ''s'')]
               (newPortal ''bus'' (\<lambda>n. 7)))))))
    = deliver ''bus/request_1_7'' 0 []
       (prun [MakeRequest 0 (\<lambda>r. Start ''p'' [] (token r))]
         (snd (makeRequest 0 (\<lambda>r. SelectDevices ''p'' (token r) 3)
            (prun [MakeRequest 0 (\<lambda>r. CreateSession (token r) ''s'')]
               (newPortal ''bus'' (\<lambda>n. 7))))))"
proof -
  let ?init = "prun [MakeRequest 0 (\<lambda>r. CreateSession (token r) ''s'')] (newPortal ''bus'' (\<lambda>n. 7))"
  let ?send = "\<lambda>r. SelectDevices ''p'' (token r) 3"
  let ?mid = "prun [MakeRequest 0 (\<lambda>r. Start ''p'' [] (token r))] (snd (makeRequest 0 ?send ?init))"
  have p: "path (fst (generateToken ''request'' ?init)) = ''bus/request_1_7''" by code_simp
  have f: "fst (makeRequest 0 ?send ?init) = 1" by code_simp
  have u: "settlementOf ?mid 1 = Unsettled" by code_simp
  have e: "settle 0 [] = Fulfilled []" by (simp add: settle_def)
  from second_response_ignored
      [where es = "[MakeRequest 0 (\<lambda>r. Start ''p'' [] (token r))]" and sendFn = ?send
         and who = 0 and ?es0.0 = "[MakeRequest 0 (\<lambda>r. CreateSession (token r) ''s'')]"
         and bus = "''bus''" and rnd = "\<lambda>n. 7" and ?st1.0 = 0 and ?res1.0 = "[]"
         and ?st2.0 = 2 and ?res2.0 = "[]",
       OF refl refl refl refl _ refl refl]
  show ?thesis unfolding p f using u e by simp
qed










section \<open>What a client sends\<close>

lemma fold_snoc: "fold f (xs @ [x]) s = f x (fold f xs s)"
  by simp

lemma run_induct [consumes 1, case_names init step]:
  assumes "s = run es (newClient bus rnd)"
    and "P (newClient bus rnd)"
    and "\<And>e s. P s \<Longrightarrow> P (step e s)"
  shows "P s"
  unfolding assms(1)
proof (induction es rule: rev_induct)
  case Nil
  show ?case using assms(2) by (simp add: run_def)
next
  case (snoc e es)
  then show ?case using assms(3) by (simp add: run_def)
qed

lemma makeRequest_wire:
  "wire (snd (makeRequest who sendFn s))
     = (if closed s then wire s
        else wire s @ [Sent who (sendFn (fst (generateToken ''request'' s)))])"
  by (simp add: makeRequest_def generateToken_def Let_def)

lemma makeRequest_client:
  "interface (snd (makeRequest who sendFn s)) = interface s"
  "session (snd (makeRequest who sendFn s)) = session s"
  "tasks (snd (makeRequest who sendFn s)) = tasks s"
  by (simp_all add: makeRequest_def generateToken_def Let_def)

lemma setPc_fields:
  "wire (setPc tid c s) = wire s" "pending (setPc tid c s) = pending s"
  "futures (setPc tid c s) = futures s" "busName (setPc tid c s) = busName s"
  "counter (setPc tid c s) = counter s" "entropy (setPc tid c s) = entropy s"
  "interface (setPc tid c s) = interface s" "session (setPc tid c s) = session s"
  "closed (setPc tid c s) = closed s"
  "tasks (setPc tid c s) = (tasks s)[tid := (tasks s ! tid)\<lparr>pc := c\<rparr>]"
  by (simp_all add: setPc_def)

lemma wire_createSession:
  "wire (createSession tid s) = wire s \<or>
   (\<exists>t u. wire (createSession tid s) = wire s @ [Sent tid (CreateSession t u)])"
  by (simp add: createSession_def setPc_fields makeRequest_wire split_def Let_def split: option.split)

lemma wire_requestDevices:
  "wire (requestDevices tid s) = wire s \<or>
   (\<exists>p t. wire (requestDevices tid s) = wire s @ [Sent tid (SelectDevices p t 3)])"
  by (simp add: requestDevices_def setPc_fields makeRequest_wire split_def Let_def split: option.split)

lemma wire_start:
  "wire (start tid s) = wire s \<or>
   (\<exists>p t. wire (start tid s) = wire s @ [Sent tid (Start p [] t)])"
  by (simp add: start_def setPc_fields makeRequest_wire split_def Let_def split: option.split)

lemma wire_notify:
  "wire (notifyPointerMotion tid s) = wire s \<or>
   (\<exists>p x y. wire (notifyPointerMotion tid s) = wire s @ [Sent tid (NotifyPointerMotion p x y)])"
  by (auto simp: notifyPointerMotion_def setPc_fields split: option.split)

lemma wire_deliver:
  "wire (deliver p st res s) = wire s \<or> wire (deliver p st res s) = wire s @ [Observed p st]"
  by (simp add: deliver_def split: option.split)

lemma wire_initDone:
  "wire (initDone tid s) = wire s \<or>
   (\<exists>t u. wire (initDone tid s) = wire s @ [Sent tid (CreateSession t u)])"
proof (cases "tid < length (tasks s) \<and> pc (tasks s ! tid) = AwaitInit")
  case True
  let ?s3 = "(snd (generateToken ''session'' (s\<lparr>interface := True\<rparr>)))
               \<lparr>session := Some (fst (generateToken ''session'' (s\<lparr>interface := True\<rparr>)))\<rparr>"
  have e: "initDone tid s = createSession tid ?s3"
    using True by (simp add: initDone_def Let_def split: prod.split)
  have w: "wire ?s3 = wire s" by (simp add: generateToken_def Let_def)
  from wire_createSession [of tid ?s3] show ?thesis unfolding e w .
next
  case False
  then have "initDone tid s = s" unfolding initDone_def by (rule if_not_P)
  then show ?thesis by simp
qed

lemma wire_afterFuture:
  assumes "\<And>s. wire (next tid s) = wire s \<or> (\<exists>c. fixedArgs c \<and> wire (next tid s) = wire s @ [Sent tid c])"
  shows "wire (afterFuture tid f next s) = wire s \<or>
     (\<exists>c. fixedArgs c \<and> wire (afterFuture tid f next s) = wire s @ [Sent tid c])"
  using assms [of s] by (simp add: afterFuture_def setPc_fields split: settlement.split)

lemma wire_step:
  "wire (step e s) = wire s \<or> (\<exists>p st. wire (step e s) = wire s @ [Observed p st])
   \<or> (\<exists>t c. fixedArgs c \<and> (e = Resume t \<or> e = InitDone t)
          \<and> wire (step e s) = wire s @ [Sent t c])"
proof (cases e)
  case (CallSetPointer x y)
  then show ?thesis by (simp add: setPointer_def)
next
  case (InitDone tid)
  with wire_initDone [of tid s] show ?thesis by auto
next
  case (InitFailed tid)
  then show ?thesis by (simp add: initFailed_def setPc_fields)
next
  case (Response p st res)
  with wire_deliver [of p st res s] show ?thesis by auto
next
  case (Resume tid)
  have rd: "\<And>s. wire (requestDevices tid s) = wire s \<or>
      (\<exists>c. fixedArgs c \<and> wire (requestDevices tid s) = wire s @ [Sent tid c])"
    using wire_requestDevices [of tid] by (metis fixedArgs.simps(1))
  have st: "\<And>s. wire (start tid s) = wire s \<or>
      (\<exists>c. fixedArgs c \<and> wire (start tid s) = wire s @ [Sent tid c])"
    using wire_start [of tid] by (metis fixedArgs.simps(2))
  have sp: "\<And>s. wire (setPc tid AwaitConnect s) = wire s \<or>
      (\<exists>c. fixedArgs c \<and> wire (setPc tid AwaitConnect s) = wire s @ [Sent tid c])"
    by (simp add: setPc_fields)
  have nt: "wire (notifyPointerMotion tid s) = wire s \<or>
      (\<exists>c. fixedArgs c \<and> wire (notifyPointerMotion tid s) = wire s @ [Sent tid c])"
    using wire_notify [of tid s] by (metis fixedArgs.simps(4))
  have "wire (resume tid s) = wire s \<or>
      (\<exists>c. fixedArgs c \<and> wire (resume tid s) = wire s @ [Sent tid c])"
    using wire_afterFuture [of requestDevices tid, OF rd] wire_afterFuture [of start tid, OF st]
      wire_afterFuture [of "\<lambda>t. setPc t AwaitConnect" tid, OF sp] nt
    by (simp add: resume_def split: pc.split)
  with Resume show ?thesis by auto
next
  case ConnectionLost
  then show ?thesis by (simp add: connectionLost_def)
qed

lemma sentCalls_append: "sentCalls (xs @ ys) = sentCalls xs @ sentCalls ys"
  by (induction xs rule: sentCalls.induct) simp_all

lemma fixedArgs_step:
  assumes "list_all fixedArgs (sentCalls (wire s))"
  shows "list_all fixedArgs (sentCalls (wire (step e s)))"
  using wire_step [of e s] assms by (auto simp: sentCalls_append)

lemma full_setup_wire:
  "wire (run [CallSetPointer 10 20, InitDone 0,
              Response ''bus/request_1_7'' 0 [], Resume 0,
              Response ''bus/request_2_7'' 0 [], Resume 0]
          (newClient ''bus'' (\<lambda>n. 7)))
   = [Sent 0 (CreateSession ''request_1_7'' ''session_0_7''),
      Observed ''bus/request_1_7'' 0,
      Sent 0 (SelectDevices ''bus/session_0_7'' ''request_2_7'' 3),
      Observed ''bus/request_2_7'' 0,
      Sent 0 (Start ''bus/session_0_7'' [] ''request_3_7'')]"
  by code_simp

text \<open>
  Claim C9 (fixed device selection). In every run of a client, every
  \<^verbatim>\<open>SelectDevices\<close> call it has sent carries the device types 3, which is keyboard (1)
  or-ed with pointer (2), and every \<^verbatim>\<open>Start\<close> call carries the empty string as parent
  window; no event and no caller can make it send other values.
\<close>

theorem fixed_device_selection:
  assumes "s = run es (newClient bus rnd)" and "c \<in> set (sentCalls (wire s))"
  shows "(\<forall>p t m. c = SelectDevices p t m \<longrightarrow> m = 3)
       \<and> (\<forall>p w t. c = Start p w t \<longrightarrow> w = [])"
proof -
  from assms(1) have "list_all fixedArgs (sentCalls (wire s))"
  proof (induction rule: run_induct)
    case init
    show ?case by (simp add: newClient_def)
  next
    case (step e s)
    then show ?case by (rule fixedArgs_step)
  qed
  with assms(2) have "fixedArgs c" by (simp add: list_all_iff)
  then show ?thesis by (cases c) simp_all
qed

theorem fixed_device_selection_witness:
  "SelectDevices ''bus/session_0_7'' ''request_2_7'' 3
     \<in> set (sentCalls (wire (run [CallSetPointer 10 20, InitDone 0,
              Response ''bus/request_1_7'' 0 [], Resume 0,
              Response ''bus/request_2_7'' 0 [], Resume 0]
          (newClient ''bus'' (\<lambda>n. 7)))))
   \<and> Start ''bus/session_0_7'' [] ''request_3_7''
     \<in> set (sentCalls (wire (run [CallSetPointer 10 20, InitDone 0,
              Response ''bus/request_1_7'' 0 [], Resume 0,
              Response ''bus/request_2_7'' 0 [], Resume 0]
          (newClient ''bus'' (\<lambda>n. 7)))))
   \<and> (1 OR 2 :: 32 word) = 3"
proof -
  have m: "SelectDevices ''bus/session_0_7'' ''request_2_7'' 3
     \<in> set (sentCalls (wire (run [CallSetPointer 10 20, InitDone 0,
              Response ''bus/request_1_7'' 0 [], Resume 0,
              Response ''bus/request_2_7'' 0 [], Resume 0]
          (newClient ''bus'' (\<lambda>n. 7)))))"
    unfolding full_setup_wire by simp
  have n: "Start ''bus/session_0_7'' [] ''request_3_7''
     \<in> set (sentCalls (wire (run [CallSetPointer 10 20, InitDone 0,
              Response ''bus/request_1_7'' 0 [], Resume 0,
              Response ''bus/request_2_7'' 0 [], Resume 0]
          (newClient ''bus'' (\<lambda>n. 7)))))"
    unfolding full_setup_wire by simp
  from fixed_device_selection [OF refl m] fixed_device_selection [OF refl n] m n
  show ?thesis by simp
qed

section \<open>The order of the setup calls\<close>

lemma sentBy_append: "sentBy t (xs @ ys) = sentBy t xs @ sentBy t ys"
  by (induction t xs rule: sentBy.induct) simp_all

lemma sentBy_mem: "c \<in> set (sentBy t w) \<longleftrightarrow> Sent t c \<in> set w"
  by (induction t w rule: sentBy.induct) auto

lemma setupBy_append: "setupBy t (xs @ ys) = setupBy t xs @ setupBy t ys"
  by (simp add: setupBy_def sentBy_append)

lemma setupBy_Nil: "setupBy t [] = []"
  by (simp add: setupBy_def)

lemma setupBy_one:
  "setupBy t [Sent u c] = (if u = t \<and> \<not> isNotifyPointerMotion c then [c] else [])"
  by (simp add: setupBy_def)

lemma setupBy_obs: "setupBy t [Observed p st] = []"
  by (simp add: setupBy_def)

lemma setupBy_mem:
  "c \<in> set (setupBy t w) \<longleftrightarrow> Sent t c \<in> set w \<and> \<not> isNotifyPointerMotion c"
  by (auto simp: setupBy_def sentBy_mem)

lemma respondedAfter_append:
  assumes "respondedAfter bus t kind w"
  shows "respondedAfter bus t kind (w @ ext)"
proof -
  from assms obtain a c b where w: "w = a @ Sent t c # b" and k: "kind c"
    and o: "Observed (responsePath bus (handleToken c)) 0 \<in> set b"
    unfolding respondedAfter_def by blast
  from w have "w @ ext = a @ Sent t c # (b @ ext)" by simp
  moreover from o have "Observed (responsePath bus (handleToken c)) 0 \<in> set (b @ ext)" by simp
  ultimately show ?thesis using k unfolding respondedAfter_def by blast
qed

lemma respondedAfter_sent:
  assumes "respondedAfter bus t kind w"
  shows "\<exists>c. kind c \<and> Sent t c \<in> set w"
proof -
  from assms obtain a c b where "w = a @ Sent t c # b" and "kind c"
    unfolding respondedAfter_def by blast
  then have "kind c \<and> Sent t c \<in> set w" by simp
  then show ?thesis ..
qed

lemma respondedAfter_new:
  assumes "Sent t c \<in> set w" and "kind c"
  shows "respondedAfter bus t kind (w @ [Observed (responsePath bus (handleToken c)) 0])"
proof -
  from assms(1) obtain a b where "w = a @ Sent t c # b" by (auto dest: split_list)
  then have "w @ [Observed (responsePath bus (handleToken c)) 0]
      = a @ Sent t c # (b @ [Observed (responsePath bus (handleToken c)) 0])" by simp
  moreover have "Observed (responsePath bus (handleToken c)) 0
      \<in> set (b @ [Observed (responsePath bus (handleToken c)) 0])" by simp
  ultimately show ?thesis using assms(2) unfolding respondedAfter_def by blast
qed

lemma ordered_Nil: "ordered bus []"
  by (simp add: ordered_def)

lemma snoc_eq_split:
  assumes "w @ [x] = pre @ y # post"
  shows "(post = [] \<and> w = pre \<and> x = y) \<or> (\<exists>ys. post = ys @ [x] \<and> w = pre @ y # ys)"
proof (cases post rule: rev_cases)
  case Nil
  with assms show ?thesis by simp
next
  case (snoc ys z)
  with assms have "w @ [x] = (pre @ y # ys) @ [z]" by simp
  then have "w = pre @ y # ys \<and> x = z" by (simp only: append1_eq_conv)
  with snoc show ?thesis by simp
qed

lemma ordered_snoc_obs:
  assumes "ordered bus w"
  shows "ordered bus (w @ [Observed p st])"
  unfolding ordered_def
proof (intro allI impI)
  fix pre t c post assume "w @ [Observed p st] = pre @ Sent t c # post"
  from snoc_eq_split [OF this] obtain ys where "w = pre @ Sent t c # ys" by auto
  with assms show "(isSelectDevices c \<longrightarrow> respondedAfter bus t isCreateSession pre) \<and>
        (isStart c \<longrightarrow> respondedAfter bus t isSelectDevices pre)"
    unfolding ordered_def by blast
qed

lemma ordered_snoc_sent:
  assumes "ordered bus w"
    and "isSelectDevices c \<Longrightarrow> respondedAfter bus t isCreateSession w"
    and "isStart c \<Longrightarrow> respondedAfter bus t isSelectDevices w"
  shows "ordered bus (w @ [Sent t c])"
  unfolding ordered_def
proof (intro allI impI)
  fix pre u d post assume "w @ [Sent t c] = pre @ Sent u d # post"
  from snoc_eq_split [OF this]
  consider "w = pre" "d = c" "u = t" | ys where "w = pre @ Sent u d # ys" by auto
  then show "(isSelectDevices d \<longrightarrow> respondedAfter bus u isCreateSession pre) \<and>
        (isStart d \<longrightarrow> respondedAfter bus u isSelectDevices pre)"
  proof cases
    case 1
    with assms(2,3) show ?thesis by simp
  next
    case 2
    with assms(1) show ?thesis unfolding ordered_def by blast
  qed
qed

text \<open>Three ways a setup sequence grows.\<close>

lemma seq_first:
  assumes "length xs \<le> 0" and "isCreateSession c"
  shows "setupSequence (xs @ [c])"
  using assms by simp

lemma seq_second:
  assumes "setupSequence xs" and "length xs \<le> 1" and "a \<in> set xs" and "isCreateSession a"
    and "isSelectDevices c"
  shows "setupSequence (xs @ [c]) \<and> length xs < 2"
proof (cases xs)
  case Nil
  with assms(3) show ?thesis by simp
next
  case (Cons x ys)
  with assms(2) have "xs = [x]" by simp
  with assms show ?thesis by simp
qed

lemma not_both_kinds: "isCreateSession c \<Longrightarrow> \<not> isSelectDevices c"
  by (cases c) simp_all

lemma seq_third:
  assumes "setupSequence xs" and "length xs \<le> 2" and "b \<in> set xs" and "isSelectDevices b"
    and "isStart c"
  shows "setupSequence (xs @ [c])"
proof (cases xs)
  case Nil
  with assms(3) show ?thesis by simp
next
  case (Cons x ys)
  show ?thesis
  proof (cases ys)
    case Nil
    with Cons assms(1,3,4) not_both_kinds [of x] show ?thesis by simp
  next
    case (Cons y zs)
    with \<open>xs = x # ys\<close> assms(2) have "xs = [x, y]" by simp
    with assms show ?thesis by simp
  qed
qed

text \<open>What a task waits for stays what it is while other things happen.\<close>

lemma awaitingI:
  assumes "f < length (futures s)"
    and "futures s ! f = Unsettled \<Longrightarrow>
           \<exists>c. kind c \<and> Sent t c \<in> set (wire s) \<and>
               (responsePath (busName s) (handleToken c), f) \<in> set (pending s)"
    and "\<And>res. futures s ! f = Fulfilled res \<Longrightarrow> respondedAfter (busName s) t kind (wire s)"
  shows "awaiting s t kind f"
  unfolding awaiting_def using assms by simp

lemma awaitingD:
  assumes "awaiting s t kind f"
  shows "f < length (futures s)"
    and "futures s ! f = Unsettled \<Longrightarrow>
           \<exists>c. kind c \<and> Sent t c \<in> set (wire s) \<and>
               (responsePath (busName s) (handleToken c), f) \<in> set (pending s)"
    and "\<And>res. futures s ! f = Fulfilled res \<Longrightarrow> respondedAfter (busName s) t kind (wire s)"
  using assms unfolding awaiting_def by simp_all

lemma awaiting_step:
  assumes "awaiting s t kind f"
    and bn: "busName s' = busName s" and w: "wire s' = wire s @ ext"
    and len: "length (futures s) \<le> length (futures s')"
    and fu: "futures s' ! f = futures s ! f \<or> (\<exists>e. futures s' ! f = Rejected e)"
    and pe: "\<And>p. (p, f) \<in> set (pending s) \<Longrightarrow> futures s' ! f = Unsettled
                 \<Longrightarrow> (p, f) \<in> set (pending s')"
  shows "awaiting s' t kind f"
proof (rule awaitingI)
  note a = awaitingD [OF assms(1)]
  show "f < length (futures s')" using a(1) len by simp
  show "\<exists>c. kind c \<and> Sent t c \<in> set (wire s') \<and>
               (responsePath (busName s') (handleToken c), f) \<in> set (pending s')"
    if u: "futures s' ! f = Unsettled"
  proof -
    from u fu have "futures s ! f = Unsettled" by auto
    from a(2) [OF this] obtain c where c: "kind c" "Sent t c \<in> set (wire s)"
      "(responsePath (busName s) (handleToken c), f) \<in> set (pending s)" by blast
    from pe [OF c(3) u] c(1,2) have "kind c \<and> Sent t c \<in> set (wire s') \<and>
               (responsePath (busName s') (handleToken c), f) \<in> set (pending s')"
      by (simp add: bn w)
    then show ?thesis ..
  qed
  show "respondedAfter (busName s') t kind (wire s')" if "futures s' ! f = Fulfilled res" for res
  proof -
    from that fu have "futures s ! f = Fulfilled res" by auto
    from a(3) [OF this] show ?thesis unfolding bn w by (rule respondedAfter_append)
  qed
qed

lemma taskInv_step:
  assumes "taskInv s t c"
    and "setupBy t (wire s') = setupBy t (wire s)"
    and "\<And>kind f. awaiting s t kind f \<Longrightarrow> awaiting s' t kind f"
  shows "taskInv s' t c"
  using assms by (cases c) (simp_all add: taskInv_def)

lemma taskInv_plain:
  assumes "length (setupBy t (wire s)) \<le> stageBound c"
    and "\<And>f. c \<noteq> AwaitCreateSession f" and "\<And>f. c \<noteq> AwaitRequestDevices f"
    and "\<And>f. c \<noteq> AwaitStart f"
  shows "taskInv s t c"
  using assms by (cases c) (auto simp: taskInv_def)

lemma taskInv_bound: "taskInv s t c \<Longrightarrow> length (setupBy t (wire s)) \<le> stageBound c"
  by (simp add: taskInv_def)

lemma stageBound_le: "stageBound c \<le> 3"
  by (cases c) simp_all

lemma setupSequence_length: "setupSequence xs \<Longrightarrow> length xs \<le> 3"
  by (induction xs rule: setupSequence.induct) simp_all

lemma sessInvI:
  assumes "corrInv s"
    and "\<And>t. t < length (tasks s) \<Longrightarrow> taskInv s t (pc (tasks s ! t))"
    and "\<And>t. setupSequence (setupBy t (wire s))"
    and "\<And>t. length (tasks s) \<le> t \<Longrightarrow> sentBy t (wire s) = []"
    and "ordered (busName s) (wire s)"
  shows "sessInv s"
  unfolding sessInv_def using assms by simp

lemma sessInvD:
  assumes "sessInv s"
  shows "corrInv s"
    and "\<And>t. t < length (tasks s) \<Longrightarrow> taskInv s t (pc (tasks s ! t))"
    and "\<And>t. setupSequence (setupBy t (wire s))"
    and "\<And>t. length (tasks s) \<le> t \<Longrightarrow> sentBy t (wire s) = []"
    and "ordered (busName s) (wire s)"
  using assms unfolding sessInv_def by simp_all

lemma sessInv_newClient: "sessInv (newClient bus rnd)"
  by (rule sessInvI) (simp_all add: newClient_def corrInv_def setupBy_def ordered_Nil)

lemma issued_mono:
  assumes "issued s p" and "busName s' = busName s" and "entropy s' = entropy s"
    and "counter s \<le> counter s'"
  shows "issued s' p"
proof -
  from assms(1) obtain i where "i < counter s"
    and "p = responsePath (busName s) (makeToken ''request'' i (entropy s i))"
    unfolding issued_def by blast
  with assms(2,3,4) have "i < counter s' \<and>
      p = responsePath (busName s') (makeToken ''request'' i (entropy s' i))" by simp
  then show ?thesis unfolding issued_def by blast
qed

lemma corrInv_cong:
  assumes "corrInv s" and "pending s' = pending s" and "futures s' = futures s"
    and "busName s' = busName s" and "entropy s' = entropy s" and "counter s \<le> counter s'"
  shows "corrInv s'"
proof (rule corrInvI)
  show "distinct (map fst (pending s'))" using corrInv_keys [OF assms(1)] by (simp add: assms(2))
  show "distinct (map snd (pending s'))" using corrInv_vals [OF assms(1)] by (simp add: assms(2))
  show "f < length (futures s')" if "(p, f) \<in> set (pending s')" for p f
    using corrInv_entry(1) [OF assms(1)] that by (simp add: assms(2,3))
  show "futures s' ! f = Unsettled" if "(p, f) \<in> set (pending s')" for p f
    using corrInv_entry(2) [OF assms(1)] that by (simp add: assms(2,3))
  show "issued s' p" if "(p, f) \<in> set (pending s')" for p f
  proof -
    from that have "issued s p" using corrInv_entry(3) [OF assms(1)] by (simp add: assms(2))
    then show ?thesis using assms(4,5,6) by (rule issued_mono)
  qed
  show "\<exists>p. (p, f) \<in> set (pending s')" if "f < length (futures s')" "futures s' ! f = Unsettled" for f
    using corrInv_unsettled [OF assms(1), of f] that by (simp add: assms(2,3))
qed

text \<open>
  Steps that touch neither the table nor the futures: a task is added or moved, the
  session handle is made, a motion call is sent.
\<close>

lemma sessInv_quiet:
  fixes s s' :: client
  assumes "sessInv s"
    and w: "wire s' = wire s \<or>
         (\<exists>tid p x y. tid < length (tasks s) \<and>
             wire s' = wire s @ [Sent tid (NotifyPointerMotion p x y)])"
    and fu: "futures s' = futures s" and pe: "pending s' = pending s"
    and bn: "busName s' = busName s" and en: "entropy s' = entropy s"
    and co: "counter s \<le> counter s'"
    and le: "length (tasks s) \<le> length (tasks s')"
    and ta: "\<And>t. t < length (tasks s') \<Longrightarrow> taskInv s t (pc (tasks s' ! t))"
  shows "sessInv s'"
proof -
  note inv = sessInvD [OF assms(1)]
  from w obtain ext where ext: "wire s' = wire s @ ext"
    and ext': "ext = [] \<or> (\<exists>tid p x y. tid < length (tasks s) \<and>
        ext = [Sent tid (NotifyPointerMotion p x y)])" by auto
  have sb: "setupBy t (wire s') = setupBy t (wire s)" for t
    using ext' by (auto simp: ext setupBy_append setupBy_one setupBy_Nil)
  have aw: "awaiting s' t kind f" if "awaiting s t kind f" for t kind f
    using that bn ext by (rule awaiting_step) (simp_all add: fu pe)
  show ?thesis
  proof (rule sessInvI)
    show "corrInv s'" using inv(1) pe fu bn en co by (rule corrInv_cong)
    show "taskInv s' t (pc (tasks s' ! t))" if "t < length (tasks s')" for t
      using ta [OF that] sb aw by (rule taskInv_step)
    show "setupSequence (setupBy t (wire s'))" for t using inv(3) by (simp add: sb)
    show "sentBy t (wire s') = []" if "length (tasks s') \<le> t" for t
    proof -
      from that le have t: "length (tasks s) \<le> t" by simp
      from inv(4) [OF t] ext' t show ?thesis by (auto simp: ext sentBy_append)
    qed
    show "ordered (busName s') (wire s')"
    proof -
      from ext' consider "ext = []"
        | tid p x y where "ext = [Sent tid (NotifyPointerMotion p x y)]" by blast
      then show ?thesis
      proof cases
        case 1
        with inv(5) show ?thesis by (simp add: ext bn)
      next
        case 2
        have "ordered (busName s) (wire s @ [Sent tid (NotifyPointerMotion p x y)])"
          using inv(5) by (rule ordered_snoc_sent) simp_all
        with 2 show ?thesis by (simp add: ext bn)
      qed
    qed
  qed
qed

lemma sessInv_setPc:
  assumes "sessInv s" and "tid < length (tasks s) \<Longrightarrow> taskInv s tid c"
  shows "sessInv (setPc tid c s)"
proof (rule sessInv_quiet [OF assms(1)])
  fix t assume t: "t < length (tasks (setPc tid c s))"
  then have t': "t < length (tasks s)" by (simp add: setPc_fields)
  show "taskInv s t (pc (tasks (setPc tid c s) ! t))"
  proof (cases "t = tid")
    case True
    with t' assms(2) show ?thesis by (simp add: setPc_fields)
  next
    case False
    with sessInvD(2) [OF assms(1) t'] show ?thesis by (simp add: setPc_fields)
  qed
qed (simp_all add: setPc_fields)

lemma sessInv_setPc_plain:
  assumes "sessInv s"
    and "\<And>f. c \<noteq> AwaitCreateSession f" and "\<And>f. c \<noteq> AwaitRequestDevices f"
    and "\<And>f. c \<noteq> AwaitStart f" and "stageBound c = 3"
  shows "sessInv (setPc tid c s)"
proof (rule sessInv_setPc [OF assms(1)])
  have "length (setupBy tid (wire s)) \<le> stageBound c"
    using setupSequence_length [OF sessInvD(3) [OF assms(1)], of tid] assms(5) by simp
  then show "taskInv s tid c" using assms(2,3,4) by (rule taskInv_plain)
qed

lemma sessInv_setPointer:
  assumes "sessInv s"
  shows "sessInv (setPointer x y s)"
proof (rule sessInv_quiet [OF assms])
  fix t assume t: "t < length (tasks (setPointer x y s))"
  show "taskInv s t (pc (tasks (setPointer x y s) ! t))"
  proof (cases "t < length (tasks s)")
    case True
    with sessInvD(2) [OF assms True] show ?thesis by (simp add: setPointer_def nth_append)
  next
    case False
    with t have e: "t = length (tasks s)" by (simp add: setPointer_def)
    then have "sentBy t (wire s) = []" using sessInvD(4) [OF assms, of t] by simp
    then have "setupBy t (wire s) = []" by (simp add: setupBy_def)
    then show ?thesis by (simp add: e setPointer_def taskInv_def)
  qed
qed (simp_all add: setPointer_def)

lemma sessInv_notify:
  assumes "sessInv s" and "tid < length (tasks s)"
  shows "sessInv (notifyPointerMotion tid s)"
proof (cases "session s")
  case None
  then have "notifyPointerMotion tid s = setPc tid (Failed TypeError) s"
    by (simp add: notifyPointerMotion_def)
  with assms show ?thesis by (simp add: sessInv_setPc_plain)
next
  case (Some se)
  let ?c = "NotifyPointerMotion (path se) (tx (tasks s ! tid)) (ty (tasks s ! tid))"
  let ?mid = "s\<lparr>wire := wire s @ [Sent tid ?c]\<rparr>"
  have e: "notifyPointerMotion tid s = setPc tid Done ?mid"
    using Some by (simp add: notifyPointerMotion_def)
  have "sessInv ?mid"
  proof (rule sessInv_quiet [OF assms(1)])
    show "wire ?mid = wire s \<or> (\<exists>tid p x y. tid < length (tasks s) \<and>
        wire ?mid = wire s @ [Sent tid (NotifyPointerMotion p x y)])"
      using assms(2) by auto
    show "taskInv s t (pc (tasks ?mid ! t))" if "t < length (tasks ?mid)" for t
      using that sessInvD(2) [OF assms(1)] by simp
  qed simp_all
  then show ?thesis unfolding e by (rule sessInv_setPc_plain) simp_all
qed

text \<open>What \<^verbatim>\<open>makeRequest\<close> does to a client whose table is in order.\<close>

lemma generateToken_token:
  "token (fst (generateToken prefix s)) = makeToken prefix (counter s) (entropy s (counter s))"
  by (simp add: generateToken_def Let_def)

lemma request_effect:
  assumes "corrInv s"
  shows "wire (snd (makeRequest who sendFn s))
       = wire s @ (if closed s then []
                   else [Sent who (sendFn (fst (generateToken ''request'' s)))])"
    and "futures (snd (makeRequest who sendFn s))
       = futures s @ [if closed s then Rejected ConnectionError else Unsettled]"
    and "pending (snd (makeRequest who sendFn s))
       = pending s @ (if closed s then []
           else [(responsePath (busName s)
                    (makeToken ''request'' (counter s) (entropy s (counter s))),
                  length (futures s))])"
proof -
  have "responsePath (busName s) (makeToken ''request'' (counter s) (entropy s (counter s)))
           \<notin> fst ` set (pending s)"
    by (rule fresh_path) (rule corrInv_entry(3) [OF assms])
  then show "pending (snd (makeRequest who sendFn s))
       = pending s @ (if closed s then []
           else [(responsePath (busName s)
                    (makeToken ''request'' (counter s) (entropy s (counter s))),
                  length (futures s))])"
    by (cases "closed s") (simp_all add: makeRequest_closed makeRequest_open update_fresh)
  show "wire (snd (makeRequest who sendFn s))
       = wire s @ (if closed s then []
                   else [Sent who (sendFn (fst (generateToken ''request'' s)))])"
    by (cases "closed s") (simp_all add: makeRequest_closed makeRequest_open)
  show "futures (snd (makeRequest who sendFn s))
       = futures s @ [if closed s then Rejected ConnectionError else Unsettled]"
    by (cases "closed s") (simp_all add: makeRequest_closed makeRequest_open)
qed

text \<open>A task makes a request from \<^verbatim>\<open>connect\<close> and waits for its future.\<close>

lemma sessInv_request:
  fixes s :: client
  assumes "sessInv s" and tid: "tid < length (tasks s)"
    and c: "c = sendFn (fst (generateToken ''request'' s))"
    and nonmotion: "\<not> isNotifyPointerMotion c"
    and tok: "handleToken c = token (fst (generateToken ''request'' s))"
    and ord1: "isSelectDevices c \<Longrightarrow> respondedAfter (busName s) tid isCreateSession (wire s)"
    and ord2: "isStart c \<Longrightarrow> respondedAfter (busName s) tid isSelectDevices (wire s)"
    and sq: "setupSequence (setupBy tid (wire s) @ [c])"
    and bound: "length (setupBy tid (wire s)) < stageBound k"
    and k: "k = AwaitCreateSession (length (futures s)) \<and> isCreateSession c
          \<or> k = AwaitRequestDevices (length (futures s)) \<and> isSelectDevices c
          \<or> k = AwaitStart (length (futures s)) \<and> isStart c"
  shows "sessInv (setPc tid k (snd (makeRequest tid sendFn s)))"
proof -
  let ?n = "length (futures s)"
  let ?r = "snd (makeRequest tid sendFn s)"
  let ?s = "setPc tid k ?r"
  let ?P = "responsePath (busName s) (makeToken ''request'' (counter s) (entropy s (counter s)))"
  note inv = sessInvD [OF assms(1)]
  note eff = request_effect [OF inv(1), of tid sendFn]
  define ext where "ext = (if closed s then [] else [Sent tid c])"
  have bn: "busName ?s = busName s" by (simp add: setPc_fields makeRequest_fields)
  have ta: "tasks ?s = (tasks s)[tid := (tasks s ! tid)\<lparr>pc := k\<rparr>]"
    by (simp add: setPc_fields makeRequest_client)
  have w: "wire ?s = wire s @ ext" by (simp add: setPc_fields eff(1) ext_def c)
  have fu: "futures ?s = futures s @ [if closed s then Rejected ConnectionError else Unsettled]"
    by (simp add: setPc_fields eff(2))
  have pe: "pending ?s = pending s @ (if closed s then [] else [(?P, ?n)])"
    by (simp add: setPc_fields eff(3))
  have aw: "awaiting ?s t kind f" if "awaiting s t kind f" for t kind f
    using that bn w
  proof (rule awaiting_step)
    from awaitingD(1) [OF that]
    show "futures ?s ! f = futures s ! f \<or> (\<exists>e. futures ?s ! f = Rejected e)"
      by (simp add: fu nth_append)
    show "length (futures s) \<le> length (futures ?s)" by (simp add: fu)
    show "(p, f) \<in> set (pending ?s)" if "(p, f) \<in> set (pending s)" for p
      using that by (simp add: pe)
  qed
  have sb_other: "setupBy t (wire ?s) = setupBy t (wire s)" if "t \<noteq> tid" for t
    using that by (simp add: w ext_def setupBy_append setupBy_one setupBy_Nil)
  have sb_tid: "setupBy tid (wire ?s)
      = (if closed s then setupBy tid (wire s) else setupBy tid (wire s) @ [c])"
    using nonmotion by (simp add: w ext_def setupBy_append setupBy_one setupBy_Nil)
  have awn: "awaiting ?s tid kind ?n" if "kind c" for kind
  proof (rule awaitingI)
    show "?n < length (futures ?s)" by (simp add: fu)
    show "\<exists>d. kind d \<and> Sent tid d \<in> set (wire ?s) \<and>
               (responsePath (busName ?s) (handleToken d), ?n) \<in> set (pending ?s)"
      if "futures ?s ! ?n = Unsettled"
    proof -
      from that have op: "\<not> closed s" by (simp add: fu split: if_splits)
      then have "kind c \<and> Sent tid c \<in> set (wire ?s) \<and>
               (responsePath (busName ?s) (handleToken c), ?n) \<in> set (pending ?s)"
        using \<open>kind c\<close> by (simp add: w ext_def bn pe tok generateToken_token)
      then show ?thesis ..
    qed
    show "respondedAfter (busName ?s) tid kind (wire ?s)" if "futures ?s ! ?n = Fulfilled res" for res
      using that by (simp add: fu split: if_splits)
  qed
  have bk: "length (setupBy tid (wire ?s)) \<le> stageBound k"
    using bound by (simp add: sb_tid)
  have tk: "taskInv ?s tid k"
    using k bk awn by (auto simp: taskInv_def)
  show ?thesis
  proof (rule sessInvI)
    have "corrInv ?r" using inv(1) by (rule corrInv_makeRequest)
    then show "corrInv ?s" by (rule corrInv_cong) (simp_all add: setPc_fields)
  next
    fix t assume "t < length (tasks ?s)"
    then have t: "t < length (tasks s)" by (simp add: ta)
    show "taskInv ?s t (pc (tasks ?s ! t))"
    proof (cases "t = tid")
      case True
      with t tk show ?thesis by (simp add: ta)
    next
      case False
      from inv(2) [OF t] sb_other [OF False] aw have "taskInv ?s t (pc (tasks s ! t))"
        by (rule taskInv_step)
      with False show ?thesis by (simp add: ta)
    qed
  next
    fix t show "setupSequence (setupBy t (wire ?s))"
    proof (cases "t = tid")
      case True
      with sq inv(3) [of tid] show ?thesis by (simp add: sb_tid)
    next
      case False
      with inv(3) [of t] show ?thesis by (simp add: sb_other)
    qed
  next
    fix t assume "length (tasks ?s) \<le> t"
    then have t: "length (tasks s) \<le> t" by (simp add: ta)
    with tid have "t \<noteq> tid" by simp
    with inv(4) [OF t] show "sentBy t (wire ?s) = []"
      by (simp add: w ext_def sentBy_append)
  next
    show "ordered (busName ?s) (wire ?s)"
    proof (cases "closed s")
      case True
      with inv(5) show ?thesis by (simp add: bn w ext_def)
    next
      case False
      have "ordered (busName s) (wire s @ [Sent tid c])"
        using inv(5) ord1 ord2 by (rule ordered_snoc_sent)
      with False show ?thesis by (simp add: bn w ext_def)
    qed
  qed
qed

lemma same_future_same_path:
  assumes "distinct (map snd al)" and "(p, f) \<in> set al" and "(q, f) \<in> set al"
  shows "p = q"
  using assms by (induction al) (auto simp: image_iff)

lemma same_path_same_future:
  assumes "distinct (map fst al)" and "(p, f) \<in> set al" and "(p, g) \<in> set al"
  shows "f = g"
  using assms by (induction al) (auto simp: image_iff)

lemma sessInv_deliver:
  fixes s :: client
  assumes "sessInv s"
  shows "sessInv (deliver p st res s)"
proof (cases "map_of (pending s) p")
  case None
  with assms show ?thesis by (simp add: deliver_None)
next
  case (Some f)
  let ?s = "deliver p st res s"
  note inv = sessInvD [OF assms]
  have mem: "(p, f) \<in> set (pending s)" using Some by (rule map_of_SomeD)
  note ent = corrInv_entry [OF inv(1) mem]
  have w: "wire ?s = wire s @ [Observed p st]" using Some by (simp add: deliver_def)
  have fu: "futures ?s = (futures s)[f := settle st res]" using Some by (simp add: deliver_def)
  have pe: "set (pending ?s) = set (pending s) - {(p, f)}"
    using delete_set [OF corrInv_keys [OF inv(1)] Some] Some by (simp add: deliver_def)
  have bn: "busName ?s = busName s" using Some by (simp add: deliver_def)
  have ta: "tasks ?s = tasks s" using Some by (simp add: deliver_def)
  have sb: "setupBy t (wire ?s) = setupBy t (wire s)" for t
    by (simp add: w setupBy_append setupBy_obs)
  have aw: "awaiting ?s t kind g" if a: "awaiting s t kind g" for t kind g
  proof (cases "g = f")
    case True
    show ?thesis
    proof (rule awaitingI)
      show "g < length (futures ?s)" using ent(1) True by (simp add: fu)
      show "\<exists>c. kind c \<and> Sent t c \<in> set (wire ?s) \<and>
               (responsePath (busName ?s) (handleToken c), g) \<in> set (pending ?s)"
        if "futures ?s ! g = Unsettled"
      proof -
        from that ent(1) True have "settle st res = Unsettled" by (simp add: fu)
        with settle_settled [of st res] show ?thesis by simp
      qed
      show "respondedAfter (busName ?s) t kind (wire ?s)" if "futures ?s ! g = Fulfilled r" for r
      proof -
        from that ent(1) True have "settle st res = Fulfilled r" by (simp add: fu)
        then have st0: "st = 0" by (simp add: settle_def split: if_splits)
        from awaitingD(2) [OF a] ent(2) True obtain c where c: "kind c" "Sent t c \<in> set (wire s)"
          "(responsePath (busName s) (handleToken c), f) \<in> set (pending s)" by auto
        from same_future_same_path [OF corrInv_vals [OF inv(1)] mem c(3)]
        have p: "p = responsePath (busName s) (handleToken c)" .
        from respondedAfter_new [where kind = kind and bus = "busName s", OF c(2,1)]
        have "respondedAfter (busName s) t kind (wire s @ [Observed p st])"
          by (simp add: p st0)
        then show ?thesis by (simp only: bn w)
      qed
    qed
  next
    case False
    from a bn w show ?thesis
    proof (rule awaiting_step)
      show "length (futures s) \<le> length (futures ?s)" by (simp add: fu)
      show "futures ?s ! g = futures s ! g \<or> (\<exists>e. futures ?s ! g = Rejected e)"
        using False by (simp add: fu)
      show "(q, g) \<in> set (pending ?s)" if "(q, g) \<in> set (pending s)" for q
        using that False by (simp add: pe)
    qed
  qed
  show ?thesis
  proof (rule sessInvI)
    show "corrInv ?s" using inv(1) by (rule corrInv_deliver)
    show "taskInv ?s t (pc (tasks ?s ! t))" if "t < length (tasks ?s)" for t
    proof -
      from that have "taskInv s t (pc (tasks s ! t))" using inv(2) by (simp add: ta)
      then have "taskInv ?s t (pc (tasks s ! t))" using sb aw by (rule taskInv_step)
      then show ?thesis by (simp add: ta)
    qed
    show "setupSequence (setupBy t (wire ?s))" for t using inv(3) by (simp add: sb)
    show "sentBy t (wire ?s) = []" if "length (tasks ?s) \<le> t" for t
      using that inv(4) [of t] by (simp add: ta w sentBy_append)
    show "ordered (busName ?s) (wire ?s)"
      unfolding bn w using inv(5) by (rule ordered_snoc_obs)
  qed
qed

lemma sessInv_connectionLost:
  fixes s :: client
  assumes "sessInv s"
  shows "sessInv (connectionLost s)"
proof -
  let ?s = "connectionLost s"
  note inv = sessInvD [OF assms]
  have w: "wire ?s = wire s @ []" by (simp add: connectionLost_def)
  have bn: "busName ?s = busName s" by (simp add: connectionLost_def)
  have ta: "tasks ?s = tasks s" by (simp add: connectionLost_def)
  have aw: "awaiting ?s t kind g" if a: "awaiting s t kind g" for t kind g
    using a bn w
  proof (rule awaiting_step)
    note nth = connectionLost_nth [OF inv(1) awaitingD(1) [OF a]]
    show "length (futures s) \<le> length (futures ?s)" by (simp add: connectionLost_def)
    show "futures ?s ! g = futures s ! g \<or> (\<exists>e. futures ?s ! g = Rejected e)"
      by (simp add: nth)
    show "(q, g) \<in> set (pending ?s)" if "futures ?s ! g = Unsettled" for q
      using that by (simp add: nth split: if_splits)
  qed
  show ?thesis
  proof (rule sessInvI)
    show "corrInv ?s" using inv(1) by (rule corrInv_connectionLost)
    show "taskInv ?s t (pc (tasks ?s ! t))" if "t < length (tasks ?s)" for t
    proof -
      from that have "taskInv s t (pc (tasks s ! t))" using inv(2) by (simp add: ta)
      moreover have "setupBy t (wire ?s) = setupBy t (wire s)"
        by (simp add: connectionLost_def)
      ultimately have "taskInv ?s t (pc (tasks s ! t))"
        using aw by (rule taskInv_step)
      then show ?thesis by (simp add: ta)
    qed
    show "setupSequence (setupBy t (wire ?s))" for t
      using inv(3) [of t] by (simp add: connectionLost_def)
    show "sentBy t (wire ?s) = []" if "length (tasks ?s) \<le> t" for t
      using that inv(4) [of t] by (simp add: connectionLost_def)
    show "ordered (busName ?s) (wire ?s)" using inv(5) by (simp add: connectionLost_def)
  qed
qed

lemma createSession_Some:
  "session s = Some se \<Longrightarrow>
   createSession tid s = setPc tid (AwaitCreateSession (length (futures s)))
     (snd (makeRequest tid (\<lambda>req. CreateSession (token req) (token se)) s))"
  by (simp add: createSession_def split_def Let_def makeRequest_fields(1))

lemma requestDevices_Some:
  "session s = Some se \<Longrightarrow>
   requestDevices tid s = setPc tid (AwaitRequestDevices (length (futures s)))
     (snd (makeRequest tid (\<lambda>req. SelectDevices (path se) (token req) (1 OR 2)) s))"
  by (simp add: requestDevices_def split_def Let_def makeRequest_fields(1))

lemma start_Some:
  "session s = Some se \<Longrightarrow>
   start tid s = setPc tid (AwaitStart (length (futures s)))
     (snd (makeRequest tid (\<lambda>req. Start (path se) [] (token req)) s))"
  by (simp add: start_def split_def Let_def makeRequest_fields(1))

lemma sessInv_createSession:
  assumes "sessInv s" and "tid < length (tasks s)" and "pc (tasks s ! tid) = AwaitInit"
  shows "sessInv (createSession tid s)"
proof (cases "session s")
  case None
  then have "createSession tid s = setPc tid (Failed TypeError) s"
    by (simp add: createSession_def)
  with assms(1) show ?thesis by (simp add: sessInv_setPc_plain)
next
  case (Some se)
  from taskInv_bound [OF sessInvD(2) [OF assms(1,2)]] assms(3)
  have e: "setupBy tid (wire s) = []" by simp
  show ?thesis
    unfolding createSession_Some [OF Some]
    by (rule sessInv_request [OF assms(1,2) refl]) (simp_all add: e)
qed

text \<open>A fulfilled future a task waits for means an answered call of that task.\<close>

lemma fulfilled_responded:
  assumes "awaiting s t kind f" and "settlementOf s f = Fulfilled res"
    and "\<And>c. kind c \<Longrightarrow> \<not> isNotifyPointerMotion c"
  shows "respondedAfter (busName s) t kind (wire s)"
    and "\<exists>a. a \<in> set (setupBy t (wire s)) \<and> kind a"
proof -
  from awaitingD(1) [OF assms(1)] assms(2) have "futures s ! f = Fulfilled res"
    by (simp add: settlementOf_def)
  from awaitingD(3) [OF assms(1) this]
  show r: "respondedAfter (busName s) t kind (wire s)" .
  from respondedAfter_sent [OF r] obtain c where "kind c" "Sent t c \<in> set (wire s)" by blast
  with assms(3) [of c] have "c \<in> set (setupBy t (wire s)) \<and> kind c" by (simp add: setupBy_mem)
  then show "\<exists>a. a \<in> set (setupBy t (wire s)) \<and> kind a" ..
qed

lemma createSession_not_motion: "isCreateSession c \<Longrightarrow> \<not> isNotifyPointerMotion c"
  by (cases c) simp_all

lemma selectDevices_not_motion: "isSelectDevices c \<Longrightarrow> \<not> isNotifyPointerMotion c"
  by (cases c) simp_all

lemma sessInv_requestDevices:
  assumes "sessInv s" and "tid < length (tasks s)"
    and "pc (tasks s ! tid) = AwaitCreateSession f" and "settlementOf s f = Fulfilled res"
  shows "sessInv (requestDevices tid s)"
proof (cases "session s")
  case None
  then have "requestDevices tid s = setPc tid (Failed TypeError) s"
    by (simp add: requestDevices_def)
  with assms(1) show ?thesis by (simp add: sessInv_setPc_plain)
next
  case (Some se)
  from sessInvD(2) [OF assms(1,2)] assms(3)
  have b: "length (setupBy tid (wire s)) \<le> 1" and a: "awaiting s tid isCreateSession f"
    by (simp_all add: taskInv_def)
  note r = fulfilled_responded [OF a assms(4) createSession_not_motion]
  from r(2) obtain d where d: "d \<in> set (setupBy tid (wire s))" "isCreateSession d" by blast
  have q: "setupSequence (setupBy tid (wire s) @ [SelectDevices p t m])
      \<and> length (setupBy tid (wire s)) < 2" for p t m
    using sessInvD(3) [OF assms(1)] b d by (rule seq_second) simp
  show ?thesis
    unfolding requestDevices_Some [OF Some]
    by (rule sessInv_request [OF assms(1,2) refl]) (simp_all add: r(1) q)
qed

lemma sessInv_start:
  assumes "sessInv s" and "tid < length (tasks s)"
    and "pc (tasks s ! tid) = AwaitRequestDevices f" and "settlementOf s f = Fulfilled res"
  shows "sessInv (start tid s)"
proof (cases "session s")
  case None
  then have "start tid s = setPc tid (Failed TypeError) s"
    by (simp add: start_def)
  with assms(1) show ?thesis by (simp add: sessInv_setPc_plain)
next
  case (Some se)
  from sessInvD(2) [OF assms(1,2)] assms(3)
  have b: "length (setupBy tid (wire s)) \<le> 2" and a: "awaiting s tid isSelectDevices f"
    by (simp_all add: taskInv_def)
  note r = fulfilled_responded [OF a assms(4) selectDevices_not_motion]
  from r(2) obtain d where d: "d \<in> set (setupBy tid (wire s))" "isSelectDevices d" by blast
  have q: "setupSequence (setupBy tid (wire s) @ [Start p w t])" for p w t
    using sessInvD(3) [OF assms(1)] b d by (rule seq_third) simp
  from b have b': "length (setupBy tid (wire s)) < 3" by simp
  show ?thesis
    unfolding start_Some [OF Some]
    by (rule sessInv_request [OF assms(1,2) refl]) (simp_all add: r(1) q b')
qed

lemma sessInv_initDone:
  assumes "sessInv s"
  shows "sessInv (initDone tid s)"
proof (cases "tid < length (tasks s) \<and> pc (tasks s ! tid) = AwaitInit")
  case True
  let ?mid = "(snd (generateToken ''session'' (s\<lparr>interface := True\<rparr>)))
               \<lparr>session := Some (fst (generateToken ''session'' (s\<lparr>interface := True\<rparr>)))\<rparr>"
  have e: "initDone tid s = createSession tid ?mid"
    using True by (simp add: initDone_def Let_def split: prod.split)
  have t: "tasks ?mid = tasks s" by (simp add: generateToken_def Let_def)
  have "sessInv ?mid"
  proof (rule sessInv_quiet [OF assms])
    show "taskInv s t (pc (tasks ?mid ! t))" if "t < length (tasks ?mid)" for t
      using that sessInvD(2) [OF assms, of t] by (simp add: t)
  qed (simp_all add: generateToken_def Let_def)
  then show ?thesis unfolding e using True by (intro sessInv_createSession) (simp_all add: t)
next
  case False
  then have "initDone tid s = s" unfolding initDone_def by (rule if_not_P)
  with assms show ?thesis by simp
qed

lemma sessInv_initFailed:
  assumes "sessInv s"
  shows "sessInv (initFailed tid s)"
  using assms by (simp add: initFailed_def sessInv_setPc_plain)

lemma sessInv_resume:
  assumes "sessInv s"
  shows "sessInv (resume tid s)"
proof (cases "tid < length (tasks s)")
  case False
  with assms show ?thesis by (simp add: resume_def)
next
  case True
  show ?thesis
  proof (cases "pc (tasks s ! tid)")
    case (AwaitCreateSession f)
    have "sessInv (afterFuture tid f requestDevices s)"
    proof (cases "settlementOf s f")
      case Unsettled
      with assms show ?thesis by (simp add: afterFuture_def)
    next
      case (Fulfilled res)
      from sessInv_requestDevices [OF assms True AwaitCreateSession Fulfilled] Fulfilled
      show ?thesis by (simp add: afterFuture_def)
    next
      case (Rejected e)
      with assms show ?thesis by (simp add: afterFuture_def sessInv_setPc_plain)
    qed
    with True AwaitCreateSession show ?thesis by (simp add: resume_def)
  next
    case (AwaitRequestDevices f)
    have "sessInv (afterFuture tid f start s)"
    proof (cases "settlementOf s f")
      case Unsettled
      with assms show ?thesis by (simp add: afterFuture_def)
    next
      case (Fulfilled res)
      from sessInv_start [OF assms True AwaitRequestDevices Fulfilled] Fulfilled
      show ?thesis by (simp add: afterFuture_def)
    next
      case (Rejected e)
      with assms show ?thesis by (simp add: afterFuture_def sessInv_setPc_plain)
    qed
    with True AwaitRequestDevices show ?thesis by (simp add: resume_def)
  next
    case (AwaitStart f)
    have "sessInv (afterFuture tid f (\<lambda>t. setPc t AwaitConnect) s)"
      using assms
      by (cases "settlementOf s f") (simp_all add: afterFuture_def sessInv_setPc_plain)
    with True AwaitStart show ?thesis by (simp add: resume_def)
  next
    case AwaitConnect
    with True assms show ?thesis by (simp add: resume_def sessInv_notify)
  qed (use True assms in \<open>simp_all add: resume_def\<close>)
qed

lemma sessInv_step: "sessInv s \<Longrightarrow> sessInv (step e s)"
  by (cases e)
    (simp_all add: sessInv_setPointer sessInv_initDone sessInv_initFailed sessInv_deliver
      sessInv_resume sessInv_connectionLost)

lemma busName_makeRequest_setPc:
  "busName (setPc tid k (snd (makeRequest who sendFn s))) = busName s"
  by (simp add: setPc_fields makeRequest_fields)

lemma busName_createSession: "busName (createSession tid s) = busName s"
  by (cases "session s")
    (simp_all add: createSession_Some busName_makeRequest_setPc, simp add: createSession_def setPc_fields)

lemma busName_requestDevices: "busName (requestDevices tid s) = busName s"
  by (cases "session s")
    (simp_all add: requestDevices_Some busName_makeRequest_setPc, simp add: requestDevices_def setPc_fields)

lemma busName_start: "busName (start tid s) = busName s"
  by (cases "session s")
    (simp_all add: start_Some busName_makeRequest_setPc, simp add: start_def setPc_fields)

lemma busName_step: "busName (step e s) = busName s"
proof (cases e)
  case (CallSetPointer x y)
  then show ?thesis by (simp add: setPointer_def)
next
  case (InitDone tid)
  then show ?thesis
    by (simp add: initDone_def Let_def split_def busName_createSession generateToken_def)
next
  case (InitFailed tid)
  then show ?thesis by (simp add: initFailed_def setPc_fields)
next
  case (Response p st res)
  then show ?thesis by (simp add: deliver_def split: option.split)
next
  case (Resume tid)
  then show ?thesis
    by (simp add: resume_def afterFuture_def busName_requestDevices busName_start setPc_fields
        notifyPointerMotion_def split: pc.split settlement.split option.split)
next
  case ConnectionLost
  then show ?thesis by (simp add: connectionLost_def)
qed

lemma reachable_sessInv:
  assumes "s = run es (newClient bus rnd)"
  shows "sessInv s \<and> busName s = bus"
  using assms
proof (induction rule: run_induct)
  case init
  show ?case by (simp add: sessInv_newClient) (simp add: newClient_def)
next
  case (step e s)
  then show ?case by (simp add: sessInv_step busName_step)
qed





section \<open>The guard of connect\<close>

text \<open>
  Claim C1 (connect once). Two calls of \<^verbatim>\<open>setPointer\<close> made before
  \<^verbatim>\<open>super.init()\<close> has resolved both find \<^verbatim>\<open>this.interface\<close> unset, since
  \<^verbatim>\<open>connect\<close> assigns it only after the \<^verbatim>\<open>await\<close>; each then runs the setup, and two
  \<^verbatim>\<open>CreateSession\<close> calls are sent, for two different session tokens.
\<close>

theorem connect_twice_sends_two_CreateSession:
  "sentCalls (wire (run [CallSetPointer 10 20, CallSetPointer 10 20, InitDone 0, InitDone 1]
                     (newClient ''bus'' (\<lambda>n. 7))))
   = [CreateSession ''request_1_7'' ''session_0_7'',
      CreateSession ''request_3_7'' ''session_2_7'']"
  by code_simp

text \<open>
  Claim C4 (motion only after the session has started). A call of \<^verbatim>\<open>setPointer\<close>
  that arrives while the setup of an earlier call is under way finds
  \<^verbatim>\<open>this.interface\<close> set, so its \<^verbatim>\<open>connect\<close> returns at once; its motion call is sent
  when only \<^verbatim>\<open>CreateSession\<close> has been sent and no response has been observed.
\<close>

theorem motion_sent_before_session_started:
  "wire (run [CallSetPointer 10 20, InitDone 0, CallSetPointer 10 20, Resume 1]
            (newClient ''bus'' (\<lambda>n. 7)))
   = [Sent 0 (CreateSession ''request_1_7'' ''session_0_7''),
      Sent 1 (NotifyPointerMotion ''bus/session_0_7'' 10 20)]"
  by code_simp

section \<open>Failure of a setup step\<close>

text \<open>An event appends a task, or moves one task that has not finished, or leaves the tasks.\<close>

lemma tasks_createSession:
  "\<exists>c. tasks (createSession tid s) = (tasks s)[tid := (tasks s ! tid)\<lparr>pc := c\<rparr>]"
proof (cases "session s")
  case None
  then have "tasks (createSession tid s) = (tasks s)[tid := (tasks s ! tid)\<lparr>pc := Failed TypeError\<rparr>]"
    by (simp add: createSession_def setPc_fields)
  then show ?thesis ..
next
  case (Some se)
  then have "tasks (createSession tid s)
      = (tasks s)[tid := (tasks s ! tid)\<lparr>pc := AwaitCreateSession (length (futures s))\<rparr>]"
    by (simp add: createSession_Some setPc_fields makeRequest_client)
  then show ?thesis ..
qed

lemma tasks_requestDevices:
  "\<exists>c. tasks (requestDevices tid s) = (tasks s)[tid := (tasks s ! tid)\<lparr>pc := c\<rparr>]"
proof (cases "session s")
  case None
  then have "tasks (requestDevices tid s) = (tasks s)[tid := (tasks s ! tid)\<lparr>pc := Failed TypeError\<rparr>]"
    by (simp add: requestDevices_def setPc_fields)
  then show ?thesis ..
next
  case (Some se)
  then have "tasks (requestDevices tid s)
      = (tasks s)[tid := (tasks s ! tid)\<lparr>pc := AwaitRequestDevices (length (futures s))\<rparr>]"
    by (simp add: requestDevices_Some setPc_fields makeRequest_client)
  then show ?thesis ..
qed

lemma tasks_start:
  "\<exists>c. tasks (start tid s) = (tasks s)[tid := (tasks s ! tid)\<lparr>pc := c\<rparr>]"
proof (cases "session s")
  case None
  then have "tasks (start tid s) = (tasks s)[tid := (tasks s ! tid)\<lparr>pc := Failed TypeError\<rparr>]"
    by (simp add: start_def setPc_fields)
  then show ?thesis ..
next
  case (Some se)
  then have "tasks (start tid s)
      = (tasks s)[tid := (tasks s ! tid)\<lparr>pc := AwaitStart (length (futures s))\<rparr>]"
    by (simp add: start_Some setPc_fields makeRequest_client)
  then show ?thesis ..
qed

lemma tasks_notify:
  "\<exists>c. tasks (notifyPointerMotion tid s) = (tasks s)[tid := (tasks s ! tid)\<lparr>pc := c\<rparr>]"
proof (cases "session s")
  case None
  then have "tasks (notifyPointerMotion tid s)
      = (tasks s)[tid := (tasks s ! tid)\<lparr>pc := Failed TypeError\<rparr>]"
    by (simp add: notifyPointerMotion_def setPc_fields)
  then show ?thesis ..
next
  case (Some se)
  then have "tasks (notifyPointerMotion tid s) = (tasks s)[tid := (tasks s ! tid)\<lparr>pc := Done\<rparr>]"
    by (simp add: notifyPointerMotion_def setPc_fields)
  then show ?thesis ..
qed

lemma tasks_afterFuture:
  assumes "\<And>s. \<exists>c. tasks (next tid s) = (tasks s)[tid := (tasks s ! tid)\<lparr>pc := c\<rparr>]"
  shows "tasks (afterFuture tid f next s) = tasks s \<or>
     (\<exists>c. tasks (afterFuture tid f next s) = (tasks s)[tid := (tasks s ! tid)\<lparr>pc := c\<rparr>])"
proof (cases "settlementOf s f")
  case Unsettled
  then show ?thesis by (simp add: afterFuture_def)
next
  case (Fulfilled res)
  with assms [of s] show ?thesis by (simp add: afterFuture_def)
next
  case (Rejected e)
  then have "tasks (afterFuture tid f next s) = (tasks s)[tid := (tasks s ! tid)\<lparr>pc := Failed e\<rparr>]"
    by (simp add: afterFuture_def setPc_fields)
  then show ?thesis by blast
qed

lemma tasks_initDone:
  "tasks (initDone tid s) = tasks s \<or>
   (\<exists>c. tasks (initDone tid s) = (tasks s)[tid := (tasks s ! tid)\<lparr>pc := c\<rparr>])"
proof (cases "tid < length (tasks s) \<and> pc (tasks s ! tid) = AwaitInit")
  case True
  let ?mid = "(snd (generateToken ''session'' (s\<lparr>interface := True\<rparr>)))
               \<lparr>session := Some (fst (generateToken ''session'' (s\<lparr>interface := True\<rparr>)))\<rparr>"
  have e: "initDone tid s = createSession tid ?mid"
    using True by (simp add: initDone_def Let_def split: prod.split)
  have t: "tasks ?mid = tasks s" by (simp add: generateToken_def Let_def)
  from tasks_createSession [of tid ?mid] show ?thesis unfolding e t by simp
next
  case False
  then have "initDone tid s = s" unfolding initDone_def by (rule if_not_P)
  then show ?thesis by simp
qed

lemma tasks_resume:
  "tasks (resume tid s) = tasks s \<or>
   (\<exists>c. tasks (resume tid s) = (tasks s)[tid := (tasks s ! tid)\<lparr>pc := c\<rparr>])"
proof (cases "tid < length (tasks s)")
  case False
  then show ?thesis by (simp add: resume_def)
next
  case True
  show ?thesis
  proof (cases "pc (tasks s ! tid)")
    case (AwaitCreateSession f)
    with True tasks_afterFuture [of requestDevices tid f s, OF tasks_requestDevices]
    show ?thesis by (simp add: resume_def)
  next
    case (AwaitRequestDevices f)
    with True tasks_afterFuture [of start tid f s, OF tasks_start]
    show ?thesis by (simp add: resume_def)
  next
    case (AwaitStart f)
    have "\<And>s. \<exists>c. tasks (setPc tid AwaitConnect s) = (tasks s)[tid := (tasks s ! tid)\<lparr>pc := c\<rparr>]"
      unfolding setPc_fields by (rule exI) (rule refl)
    from tasks_afterFuture [of "\<lambda>t. setPc t AwaitConnect" tid f s, OF this] True AwaitStart
    show ?thesis by (simp add: resume_def)
  next
    case AwaitConnect
    with True tasks_notify [of tid s] show ?thesis by (simp add: resume_def)
  qed (use True in \<open>simp_all add: resume_def\<close>)
qed

text \<open>An event for one task leaves the other tasks where they are.\<close>

lemma pc_step:
  assumes "tid < length (tasks s)"
  shows "tid < length (tasks (step e s))"
    and "pc (tasks (step e s) ! tid) = pc (tasks s ! tid)
       \<or> e = Resume tid \<or> e = InitDone tid \<or> e = InitFailed tid"
proof -
  have "tid < length (tasks (step e s)) \<and>
     (pc (tasks (step e s) ! tid) = pc (tasks s ! tid)
       \<or> e = Resume tid \<or> e = InitDone tid \<or> e = InitFailed tid)"
  proof (cases e)
    case (CallSetPointer x y)
    with assms show ?thesis by (simp add: setPointer_def nth_append)
  next
    case (InitDone k)
    from tasks_initDone [of k s] assms show ?thesis
      unfolding InitDone by (cases "k = tid") auto
  next
    case (InitFailed k)
    with assms show ?thesis by (cases "k = tid") (auto simp: initFailed_def setPc_fields)
  next
    case (Response p st res)
    with assms show ?thesis by (simp add: deliver_def split: option.split)
  next
    case (Resume k)
    from tasks_resume [of k s] assms show ?thesis
      unfolding Resume by (cases "k = tid") auto
  next
    case ConnectionLost
    with assms show ?thesis by (simp add: connectionLost_def)
  qed
  then show "tid < length (tasks (step e s))"
    and "pc (tasks (step e s) ! tid) = pc (tasks s ! tid)
       \<or> e = Resume tid \<or> e = InitDone tid \<or> e = InitFailed tid" by simp_all
qed

lemma sentBy_step:
  "sentBy tid (wire (step e s)) = sentBy tid (wire s) \<or> e = Resume tid \<or> e = InitDone tid"
  using wire_step [of e s] by (auto simp: sentBy_append split: if_splits)

text \<open>A settled future stays as it is.\<close>

lemma futures_request:
  assumes "g < length (futures s)"
  shows "g < length (futures (setPc tid k (snd (makeRequest who sendFn s))))
       \<and> futures (setPc tid k (snd (makeRequest who sendFn s))) ! g = futures s ! g"
  using assms by (simp add: setPc_fields makeRequest_length makeRequest_old_futures)

lemma futures_createSession:
  assumes "g < length (futures s)"
  shows "g < length (futures (createSession tid s))
       \<and> futures (createSession tid s) ! g = futures s ! g"
proof (cases "session s")
  case None
  with assms show ?thesis by (simp add: createSession_def setPc_fields)
next
  case (Some se)
  from futures_request [OF assms] show ?thesis unfolding createSession_Some [OF Some] .
qed

lemma futures_requestDevices:
  assumes "g < length (futures s)"
  shows "g < length (futures (requestDevices tid s))
       \<and> futures (requestDevices tid s) ! g = futures s ! g"
proof (cases "session s")
  case None
  with assms show ?thesis by (simp add: requestDevices_def setPc_fields)
next
  case (Some se)
  from futures_request [OF assms] show ?thesis unfolding requestDevices_Some [OF Some] .
qed

lemma futures_start:
  assumes "g < length (futures s)"
  shows "g < length (futures (start tid s))
       \<and> futures (start tid s) ! g = futures s ! g"
proof (cases "session s")
  case None
  with assms show ?thesis by (simp add: start_def setPc_fields)
next
  case (Some se)
  from futures_request [OF assms] show ?thesis unfolding start_Some [OF Some] .
qed

lemma futures_step:
  fixes s :: client
  assumes "corrInv s" and g: "g < length (futures s)" and u: "futures s ! g \<noteq> Unsettled"
  shows "g < length (futures (step e s)) \<and> futures (step e s) ! g = futures s ! g"
proof (cases e)
  case (CallSetPointer x y)
  with g show ?thesis by (simp add: setPointer_def)
next
  case (InitDone k)
  show ?thesis
  proof (cases "k < length (tasks s) \<and> pc (tasks s ! k) = AwaitInit")
    case True
    let ?mid = "(snd (generateToken ''session'' (s\<lparr>interface := True\<rparr>)))
               \<lparr>session := Some (fst (generateToken ''session'' (s\<lparr>interface := True\<rparr>)))\<rparr>"
    have e: "initDone k s = createSession k ?mid"
      using True by (simp add: initDone_def Let_def split: prod.split)
    have f: "futures ?mid = futures s" by (simp add: generateToken_def Let_def)
    from g have "g < length (futures ?mid)" by (simp add: f)
    from futures_createSession [OF this, of k] show ?thesis
      unfolding InitDone by (simp add: e f)
  next
    case False
    then have "initDone k s = s" unfolding initDone_def by (rule if_not_P)
    with InitDone g show ?thesis by simp
  qed
next
  case (InitFailed k)
  with g show ?thesis by (simp add: initFailed_def setPc_fields)
next
  case (Response p st res)
  show ?thesis
  proof (cases "map_of (pending s) p")
    case None
    with Response g show ?thesis by (simp add: deliver_None)
  next
    case (Some f)
    then have "(p, f) \<in> set (pending s)" by (rule map_of_SomeD)
    from corrInv_entry(2) [OF assms(1) this] u have "f \<noteq> g" by auto
    with Response Some g show ?thesis by (simp add: deliver_def)
  qed
next
  case (Resume k)
  have af: "g < length (futures (afterFuture k f next s))
       \<and> futures (afterFuture k f next s) ! g = futures s ! g"
    if "g < length (futures (next k s)) \<and> futures (next k s) ! g = futures s ! g"
    for f "next"
    using that g by (cases "settlementOf s f") (simp_all add: afterFuture_def setPc_fields)
  have nt: "g < length (futures (notifyPointerMotion k s))
       \<and> futures (notifyPointerMotion k s) ! g = futures s ! g"
    using g by (simp add: notifyPointerMotion_def setPc_fields split: option.split)
  have "g < length (futures (resume k s)) \<and> futures (resume k s) ! g = futures s ! g"
  proof (cases "k < length (tasks s)")
    case False
    with g show ?thesis by (simp add: resume_def)
  next
    case True
    show ?thesis
    proof (cases "pc (tasks s ! k)")
      case (AwaitCreateSession f)
      with True af [of requestDevices f, OF futures_requestDevices [OF g]]
      show ?thesis by (simp add: resume_def)
    next
      case (AwaitRequestDevices f)
      with True af [of start f, OF futures_start [OF g]]
      show ?thesis by (simp add: resume_def)
    next
      case (AwaitStart f)
      have "g < length (futures (setPc k AwaitConnect s))
          \<and> futures (setPc k AwaitConnect s) ! g = futures s ! g"
        using g by (simp add: setPc_fields)
      from af [of "\<lambda>t. setPc t AwaitConnect" f, OF this] True AwaitStart
      show ?thesis by (simp add: resume_def)
    next
      case AwaitConnect
      with True nt show ?thesis by (simp add: resume_def)
    qed (use True g in \<open>simp_all add: resume_def\<close>)
  qed
  with Resume show ?thesis by simp
next
  case ConnectionLost
  from connectionLost_nth [OF assms(1) g] u g ConnectionLost show ?thesis
    by (simp add: connectionLost_def)
qed

text \<open>
  A task whose request was rejected: it rejects with the same error when it continues,
  and until then and afterwards no event makes it send anything.
\<close>

lemma resume_rejected:
  assumes "tid < length (tasks s)"
    and "pc (tasks s ! tid) = AwaitCreateSession f
       \<or> pc (tasks s ! tid) = AwaitRequestDevices f
       \<or> pc (tasks s ! tid) = AwaitStart f"
    and "f < length (futures s)" and "futures s ! f = Rejected err"
  shows "resume tid s = setPc tid (Failed err) s"
  using assms by (auto simp: resume_def afterFuture_def settlementOf_def)

lemma rejected_task_step:
  fixes s :: client
  assumes c: "corrInv s" and t: "tid < length (tasks s)"
    and f: "f < length (futures s)" and r: "futures s ! f = Rejected err"
    and k: "k = AwaitCreateSession f \<or> k = AwaitRequestDevices f \<or> k = AwaitStart f"
    and p: "pc (tasks s ! tid) = k \<or> pc (tasks s ! tid) = Failed err"
  shows "tid < length (tasks (step e s))"
    and "f < length (futures (step e s))"
    and "futures (step e s) ! f = Rejected err"
    and "pc (tasks (step e s) ! tid) = k \<or> pc (tasks (step e s) ! tid) = Failed err"
    and "sentBy tid (wire (step e s)) = sentBy tid (wire s)"
    and "e = Resume tid \<Longrightarrow> pc (tasks (step e s) ! tid) = Failed err"
    and "pc (tasks s ! tid) = Failed err \<Longrightarrow> pc (tasks (step e s) ! tid) = Failed err"
proof -
  show "tid < length (tasks (step e s))" using t by (rule pc_step(1))
  from r have "futures s ! f \<noteq> Unsettled" by simp
  from futures_step [OF c f this, of e] r
  show "f < length (futures (step e s))" and "futures (step e s) ! f = Rejected err"
    by simp_all
  have own: "step e s = s \<or> step e s = setPc tid (Failed err) s"
    if e: "e = Resume tid \<or> e = InitDone tid \<or> e = InitFailed tid"
  proof -
    from p k have ni: "pc (tasks s ! tid) \<noteq> AwaitInit" by auto
    from e consider "e = Resume tid" | "e = InitDone tid" | "e = InitFailed tid" by blast
    then show ?thesis
    proof cases
      case 1
      from p show ?thesis
      proof
        assume "pc (tasks s ! tid) = k"
        with k have "pc (tasks s ! tid) = AwaitCreateSession f
           \<or> pc (tasks s ! tid) = AwaitRequestDevices f
           \<or> pc (tasks s ! tid) = AwaitStart f" by simp
        from resume_rejected [OF t this f r] 1 show ?thesis by simp
      next
        assume "pc (tasks s ! tid) = Failed err"
        with t 1 show ?thesis by (simp add: resume_def)
      qed
    next
      case 2
      with ni show ?thesis by (simp add: initDone_def)
    next
      case 3
      with ni show ?thesis by (simp add: initFailed_def)
    qed
  qed
  have own_pc: "pc (tasks (step e s) ! tid) = pc (tasks s ! tid)
      \<or> pc (tasks (step e s) ! tid) = Failed err"
    if "e = Resume tid \<or> e = InitDone tid \<or> e = InitFailed tid"
    using own [OF that] t by (auto simp: setPc_fields)
  have own_wire: "wire (step e s) = wire s"
    if "e = Resume tid \<or> e = InitDone tid \<or> e = InitFailed tid"
    using own [OF that] by (auto simp: setPc_fields)
  from pc_step(2) [OF t, of e] own_pc
  have q: "pc (tasks (step e s) ! tid) = pc (tasks s ! tid)
      \<or> pc (tasks (step e s) ! tid) = Failed err" by blast
  with p show "pc (tasks (step e s) ! tid) = k \<or> pc (tasks (step e s) ! tid) = Failed err"
    by auto
  from sentBy_step [of tid e s] own_wire
  show "sentBy tid (wire (step e s)) = sentBy tid (wire s)" by auto
  show "pc (tasks (step e s) ! tid) = Failed err" if "pc (tasks s ! tid) = Failed err"
    using q that by auto
  show "pc (tasks (step e s) ! tid) = Failed err" if e: "e = Resume tid"
  proof -
    from p show ?thesis
    proof
      assume "pc (tasks s ! tid) = k"
      with k have "pc (tasks s ! tid) = AwaitCreateSession f
           \<or> pc (tasks s ! tid) = AwaitRequestDevices f
           \<or> pc (tasks s ! tid) = AwaitStart f" by simp
      from resume_rejected [OF t this f r] e t show ?thesis by (simp add: setPc_fields)
    next
      assume "pc (tasks s ! tid) = Failed err"
      with q show ?thesis by auto
    qed
  qed
qed

lemma run_snoc: "run (es @ [e]) s = step e (run es s)"
  by (simp add: run_def)

lemma sessInv_run: "sessInv s \<Longrightarrow> sessInv (run es s)"
  by (induction es rule: rev_induct) (simp_all add: run_def sessInv_step)

text \<open>
  Claim C2 (failure of a setup step), as the code has it. A call of \<^verbatim>\<open>setPointer\<close>
  waits in \<^verbatim>\<open>connect\<close> for the future of a setup request, and the request fails: its
  response carries a non-zero status, or the connection terminates while it is pending.
  Then, whatever happens afterwards, that call sends nothing more; until it is resumed
  it stays at its \<^verbatim>\<open>await\<close>, and once it has been resumed it has rejected with that
  error (the status, or the connection failure) and stays so. It does not retry.
\<close>

theorem failure_rejects_issuing_caller:
  assumes "s = run es (newClient bus rnd)"
    and "tid < length (tasks s)"
    and "pc (tasks s ! tid) = AwaitCreateSession f
       \<or> pc (tasks s ! tid) = AwaitRequestDevices f
       \<or> pc (tasks s ! tid) = AwaitStart f"
    and "ev = Response p st res \<and> st \<noteq> 0 \<and> map_of (pending s) p = Some f
           \<and> err = RequestDenied st
       \<or> ev = ConnectionLost \<and> f \<in> snd ` set (pending s) \<and> err = ConnectionError"
    and "s' = run es' (step ev s)"
  shows "sentBy tid (wire s') = sentBy tid (wire s)
       \<and> (pc (tasks s' ! tid) = pc (tasks s ! tid) \<or> pc (tasks s' ! tid) = Failed err)
       \<and> (Resume tid \<in> set es' \<longrightarrow> pc (tasks s' ! tid) = Failed err)"
proof -
  from reachable_sessInv [OF assms(1)] have inv: "sessInv s" by simp
  note corr = sessInvD(1) [OF inv]
  define k where "k = pc (tasks s ! tid)"
  have k: "k = AwaitCreateSession f \<or> k = AwaitRequestDevices f \<or> k = AwaitStart f"
    using assms(3) by (simp add: k_def)
  define s1 where "s1 = step ev s"
  have inv1: "sessInv s1" unfolding s1_def using inv by (rule sessInv_step)
  have base: "tid < length (tasks s1) \<and> f < length (futures s1)
      \<and> futures s1 ! f = Rejected err \<and> pc (tasks s1 ! tid) = k
      \<and> sentBy tid (wire s1) = sentBy tid (wire s)"
  proof -
    from assms(4) consider
      (denied) "ev = Response p st res" "st \<noteq> 0" "map_of (pending s) p = Some f"
        "err = RequestDenied st"
      | (lost) "ev = ConnectionLost" "f \<in> snd ` set (pending s)" "err = ConnectionError"
      by blast
    then show ?thesis
    proof cases
      case denied
      from denied(3) have "(p, f) \<in> set (pending s)" by (rule map_of_SomeD)
      from corrInv_entry(1) [OF corr this] have f: "f < length (futures s)" .
      have "s1 = deliver p st res s" by (simp add: s1_def denied(1))
      with denied(2,3,4) f assms(2) show ?thesis
        by (simp add: deliver_def settle_def k_def sentBy_append)
    next
      case lost
      from lost(2) obtain q where q: "(q, f) \<in> set (pending s)" by force
      note e = corrInv_entry(1,2) [OF corr q]
      have s1: "s1 = connectionLost s" by (simp add: s1_def lost(1))
      from connectionLost_nth [OF corr e(1)] e(2)
      have "futures s1 ! f = Rejected err" by (simp add: s1 lost(3))
      with e(1) assms(2) show ?thesis by (simp add: s1 k_def) (simp add: connectionLost_def)
    qed
  qed
  have main: "tid < length (tasks (run xs s1)) \<and> f < length (futures (run xs s1))
      \<and> futures (run xs s1) ! f = Rejected err
      \<and> (pc (tasks (run xs s1) ! tid) = k \<or> pc (tasks (run xs s1) ! tid) = Failed err)
      \<and> sentBy tid (wire (run xs s1)) = sentBy tid (wire s)
      \<and> (Resume tid \<in> set xs \<longrightarrow> pc (tasks (run xs s1) ! tid) = Failed err)" for xs
  proof (induction xs rule: rev_induct)
    case Nil
    from base show ?case by (simp add: run_def)
  next
    case (snoc e xs)
    let ?a = "run xs s1"
    from snoc have a: "tid < length (tasks ?a)" "f < length (futures ?a)"
      "futures ?a ! f = Rejected err"
      "pc (tasks ?a ! tid) = k \<or> pc (tasks ?a ! tid) = Failed err"
      and w: "sentBy tid (wire ?a) = sentBy tid (wire s)"
      and d: "Resume tid \<in> set xs \<longrightarrow> pc (tasks ?a ! tid) = Failed err"
      by simp_all
    have "corrInv ?a" using sessInv_run [OF inv1] by (rule sessInvD(1))
    note st = rejected_task_step [OF this a(1,2,3) k a(4), of e]
    have "Resume tid \<in> set (xs @ [e]) \<longrightarrow> pc (tasks (step e ?a) ! tid) = Failed err"
      using st(6,7) d by auto
    with st(1,2,3,4) st(5) w show ?case unfolding run_snoc by simp
  qed
  from main [of es'] show ?thesis by (simp add: assms(5) s1_def k_def)
qed

theorem failure_rejects_issuing_caller_witness:
  "pc (tasks (run [CallSetPointer 10 20, InitDone 0] (newClient ''bus'' (\<lambda>n. 7))) ! 0)
     = AwaitCreateSession 0
   \<and> map_of (pending (run [CallSetPointer 10 20, InitDone 0] (newClient ''bus'' (\<lambda>n. 7))))
       ''bus/request_1_7'' = Some 0
   \<and> pc (tasks (run [Resume 0, CallSetPointer 1 2, Resume 1, Resume 0]
          (step (Response ''bus/request_1_7'' 1 [])
             (run [CallSetPointer 10 20, InitDone 0] (newClient ''bus'' (\<lambda>n. 7))))) ! 0)
     = Failed (RequestDenied 1)
   \<and> sentBy 0 (wire (run [Resume 0, CallSetPointer 1 2, Resume 1, Resume 0]
          (step (Response ''bus/request_1_7'' 1 [])
             (run [CallSetPointer 10 20, InitDone 0] (newClient ''bus'' (\<lambda>n. 7))))))
     = [CreateSession ''request_1_7'' ''session_0_7'']"
proof -
  let ?init = "run [CallSetPointer 10 20, InitDone 0] (newClient ''bus'' (\<lambda>n. 7))"
  have l: "0 < length (tasks ?init)" by code_simp
  have a: "pc (tasks ?init ! 0) = AwaitCreateSession 0" by code_simp
  have m: "map_of (pending ?init) ''bus/request_1_7'' = Some 0" by code_simp
  have n: "(1 :: 32 word) \<noteq> 0" by simp
  have w: "sentBy 0 (wire ?init) = [CreateSession ''request_1_7'' ''session_0_7'']"
    by code_simp
  have h: "Response ''bus/request_1_7'' 1 [] = Response ''bus/request_1_7'' 1 []
           \<and> (1 :: 32 word) \<noteq> 0 \<and> map_of (pending ?init) ''bus/request_1_7'' = Some 0
           \<and> RequestDenied 1 = RequestDenied 1
       \<or> Response ''bus/request_1_7'' 1 [] = ConnectionLost \<and> 0 \<in> snd ` set (pending ?init)
           \<and> RequestDenied 1 = ConnectionError"
    using m n by simp
  from failure_rejects_issuing_caller [OF refl l disjI1 [OF a] h refl,
      of "[Resume 0, CallSetPointer 1 2, Resume 1, Resume 0]"] a m w
  show ?thesis by simp
qed

text \<open>
  Claim C2 as stated has the client enter a failed state, every later caller receive the
  error, and no setup be tried again on the same client. None of that is so: after
  \<^verbatim>\<open>CreateSession\<close> was denied with status 1 and the first call rejected, a second
  call of \<^verbatim>\<open>setPointer\<close> completes without an error; and a call that was already
  waiting for \<^verbatim>\<open>super.init()\<close> when the first one failed runs the setup again and
  sends a second \<^verbatim>\<open>CreateSession\<close>.
\<close>

theorem failure_not_seen_by_later_caller:
  "map pc (tasks (run [CallSetPointer 10 20, InitDone 0,
                       Response ''bus/request_1_7'' 1 [], Resume 0,
                       CallSetPointer 1 2, Resume 1]
                   (newClient ''bus'' (\<lambda>n. 7))))
     = [Failed (RequestDenied 1), Done]
   \<and> wire (run [CallSetPointer 10 20, InitDone 0,
                Response ''bus/request_1_7'' 1 [], Resume 0,
                CallSetPointer 1 2, Resume 1]
            (newClient ''bus'' (\<lambda>n. 7)))
     = [Sent 0 (CreateSession ''request_1_7'' ''session_0_7''),
        Observed ''bus/request_1_7'' 1,
        Sent 1 (NotifyPointerMotion ''bus/session_0_7'' 1 2)]
   \<and> wire (run [CallSetPointer 10 20, CallSetPointer 10 20, InitDone 0,
                Response ''bus/request_1_7'' 1 [], Resume 0, InitDone 1]
            (newClient ''bus'' (\<lambda>n. 7)))
     = [Sent 0 (CreateSession ''request_1_7'' ''session_0_7''),
        Observed ''bus/request_1_7'' 1,
        Sent 1 (CreateSession ''request_3_7'' ''session_2_7'')]"
  by code_simp

section \<open>The trash tab\<close>

lemma fold_unregister:
  "fold unregisterDraggable ds r = filter (\<lambda>e. did e \<notin> did ` set ds) r"
proof (induction ds arbitrary: r)
  case Nil
  show ?case by simp
next
  case (Cons d ds)
  have "filter (\<lambda>e. did e \<notin> did ` set ds) (filter (\<lambda>e. did e \<noteq> did d) r)
      = filter (\<lambda>e. did e \<notin> did ` set (d # ds)) r"
    by (induction r) auto
  with Cons show ?case by (simp add: unregisterDraggable_def)
qed

text \<open>The draggable the loop of \<^verbatim>\<open>redraw\<close> makes for a thing, with a given identity.\<close>

lemma fold_addDraggable:
  "fold addDraggable ts s =
     s\<lparr>registry := registry s @
           map (\<lambda>(t, i). \<lparr>did = i,
                  dataType = (if hasRoot t then ''trashed-menu'' else ''trashed-menu-item''),
                  getData = t\<rparr>) (zip ts [nextObject s ..< nextObject s + length ts]),
        draggables := draggables s @
           map (\<lambda>(t, i). \<lparr>did = i,
                  dataType = (if hasRoot t then ''trashed-menu'' else ''trashed-menu-item''),
                  getData = t\<rparr>) (zip ts [nextObject s ..< nextObject s + length ts]),
        nextObject := nextObject s + length ts\<rparr>"
proof (induction ts arbitrary: s)
  case Nil
  show ?case by simp
next
  case (Cons t ts)
  have u: "[nextObject s ..< nextObject s + length (t # ts)]
      = nextObject s # [Suc (nextObject s) ..< Suc (nextObject s) + length ts]"
    by (simp add: upt_rec)
  show ?case
    unfolding u by (simp add: Cons.IH) (simp add: addDraggable_def registerDraggable_def Let_def)
qed

lemma map_getData_zip:
  "length is = length ts \<Longrightarrow>
   map getData (map (\<lambda>(t, i). \<lparr>did = i, dataType = g t, getData = t\<rparr>) (zip ts is)) = ts"
  by (induction ts "is" rule: list_induct2') simp_all

lemma map_did_zip:
  "length is = length ts \<Longrightarrow>
   map did (map (\<lambda>(t, i). \<lparr>did = i, dataType = g t, getData = t\<rparr>) (zip ts is)) = is"
  by (induction ts "is" rule: list_induct2') simp_all

lemma redraw_tabInv:
  assumes "list_all (\<lambda>e. did e < n) reg"
    and "n \<le> nextObject s" and "registry s = reg @ draggables s"
    and "list_all (\<lambda>e. n \<le> did e) (draggables s)"
  shows "tabInv reg n (redraw s)" and "trash (redraw s) = trash s"
proof -
  let ?new = "map (\<lambda>(t, i). \<lparr>did = i,
                  dataType = (if hasRoot t then ''trashed-menu'' else ''trashed-menu-item''),
                  getData = t\<rparr>) (zip (trash s) [nextObject s ..< nextObject s + length (trash s)])"
  have keep: "filter (\<lambda>e. did e \<notin> did ` set (draggables s)) reg = reg"
  proof -
    have "did e \<notin> did ` set (draggables s)" if "e \<in> set reg" for e
    proof
      assume "did e \<in> did ` set (draggables s)"
      then obtain d where "d \<in> set (draggables s)" and "did d = did e" by auto
      with assms(4) have "n \<le> did e" by (auto simp: list_all_iff)
      moreover from that assms(1) have "did e < n" by (simp add: list_all_iff)
      ultimately show False by simp
    qed
    then show ?thesis by (simp add: filter_id_conv)
  qed
  have drop: "filter (\<lambda>e. did e \<notin> did ` set (draggables s)) (draggables s) = []"
    by (simp add: filter_empty_conv)
  have un: "fold unregisterDraggable (draggables s) (registry s) = reg"
    by (simp add: fold_unregister assms(3) keep drop)
  have r: "redraw s = s\<lparr>registry := reg @ ?new, draggables := ?new,
        nextObject := nextObject s + length (trash s),
        counterText := toString (length (trash s))\<rparr>"
    by (simp add: redraw_def Let_def un fold_addDraggable)
  have len: "length [nextObject s ..< nextObject s + length (trash s)] = length (trash s)"
    by simp
  have ge: "list_all (\<lambda>e. n \<le> did e) ?new"
  proof -
    have "set (map did ?new) = set [nextObject s ..< nextObject s + length (trash s)]"
      by (simp only: map_did_zip [OF len])
    then have "\<And>e. e \<in> set ?new \<Longrightarrow> nextObject s \<le> did e" by force
    with assms(2) show ?thesis by (fastforce simp: list_all_iff)
  qed
  have di: "distinct (map did ?new)" by (simp only: map_did_zip [OF len] distinct_upt)
  have gd: "map getData ?new = trash s" by (simp only: map_getData_zip [OF len])
  show "tabInv reg n (redraw s)"
    unfolding tabInv_def r using assms(2) ge di gd by simp
  show "trash (redraw s) = trash s" by (simp add: r)
qed

lemma tabInv_pre:
  assumes "tabInv reg n s"
  shows "n \<le> nextObject (s\<lparr>trash := ts\<rparr>)"
    and "registry (s\<lparr>trash := ts\<rparr>) = reg @ draggables (s\<lparr>trash := ts\<rparr>)"
    and "list_all (\<lambda>e. n \<le> did e) (draggables (s\<lparr>trash := ts\<rparr>))"
  using assms by (simp_all add: tabInv_def)

lemma tabInv_construct:
  assumes "list_all (\<lambda>e. did e < n) reg"
  shows "tabInv reg n (construct reg n txt)"
  unfolding construct_def by (rule redraw_tabInv(1) [OF assms]) simp_all

lemma tabInv_onDrop:
  assumes "list_all (\<lambda>e. did e < n) reg" and "tabInv reg n s"
  shows "tabInv reg n (onDrop d s)"
  unfolding onDrop_def by (rule redraw_tabInv(1) [OF assms(1) tabInv_pre [OF assms(2)]])

lemma tabInv_itemDropped:
  assumes "list_all (\<lambda>e. did e < n) reg" and "tabInv reg n s"
  shows "tabInv reg n (itemDropped t s)"
  unfolding itemDropped_def by (rule redraw_tabInv(1) [OF assms(1) tabInv_pre [OF assms(2)]])

lemma tabInv_step:
  assumes "list_all (\<lambda>e. did e < n) reg" and "tabInv reg n s"
  shows "tabInv reg n (tabStep e s)"
  using assms by (cases e) (simp_all add: tabInv_onDrop tabInv_itemDropped)

lemma tabInv_run:
  assumes "list_all (\<lambda>e. did e < n) reg" and "tabInv reg n s"
  shows "tabInv reg n (tabRun es s)"
  using assms(2) unfolding tabRun_def
  by (induction es arbitrary: s) (simp_all add: tabInv_step [OF assms(1)])

lemma onDrop_trash:
  assumes "list_all (\<lambda>e. did e < n) reg" and "tabInv reg n s"
  shows "trash (onDrop d s) = trash s @ [getData d]"
  unfolding onDrop_def
  by (simp add: redraw_tabInv(2) [OF assms(1) tabInv_pre [OF assms(2)]])

text \<open>
  Claim C10 (the trash tab stays consistent). A tab is constructed while the manager
  holds draggables made earlier, and then sees any sequence of drops onto the tab and of
  drops of its own draggables elsewhere. After the constructor and after every such
  event the counter text is the decimal number of things in the trash; the tab's
  draggables carry the things of the trash, one each and in order, and are distinct
  objects; the draggables of the tab that the manager holds are exactly these, those it
  held from elsewhere are untouched; and a further drop onto the tab appends the dropped
  thing to the trash, whose length grows by one.
\<close>

theorem trash_tab_consistent:
  assumes "list_all (\<lambda>e. did e < n) reg" and "s = tabRun es (construct reg n txt)"
  shows "counterText s = toString (length (trash s))
       \<and> map getData (draggables s) = trash s
       \<and> distinct (map did (draggables s))
       \<and> filter (\<lambda>e. n \<le> did e) (registry s) = draggables s
       \<and> filter (\<lambda>e. did e < n) (registry s) = reg
       \<and> trash (onDrop d s) = trash s @ [getData d]
       \<and> length (trash (onDrop d s)) = length (trash s) + 1"
proof -
  have inv: "tabInv reg n s"
    unfolding assms(2) by (rule tabInv_run [OF assms(1) tabInv_construct [OF assms(1)]])
  then have reg: "registry s = reg @ draggables s"
    and ge: "list_all (\<lambda>e. n \<le> did e) (draggables s)"
    by (simp_all add: tabInv_def)
  have a: "filter (\<lambda>e. n \<le> did e) reg = []"
    using assms(1) by (auto simp: filter_empty_conv list_all_iff)
  have b: "filter (\<lambda>e. n \<le> did e) (draggables s) = draggables s"
    using ge by (simp add: filter_id_conv list_all_iff)
  have c: "filter (\<lambda>e. did e < n) reg = reg"
    using assms(1) by (simp add: filter_id_conv list_all_iff)
  have e: "filter (\<lambda>e. did e < n) (draggables s) = []"
    using ge by (auto simp: filter_empty_conv list_all_iff)
  from inv have "counterText s = toString (length (trash s))"
    and "map getData (draggables s) = trash s" and "distinct (map did (draggables s))"
    by (simp_all add: tabInv_def)
  moreover have "filter (\<lambda>e. n \<le> did e) (registry s) = draggables s" by (simp add: reg a b)
  moreover have "filter (\<lambda>e. did e < n) (registry s) = reg" by (simp add: reg c e)
  moreover note onDrop_trash [OF assms(1) inv, of d]
  ultimately show ?thesis by simp
qed

theorem trash_tab_consistent_witness:
  "list_all (\<lambda>e. did e < 1) [\<lparr>did = 0, dataType = ''menu'', getData = \<lparr>ref = 9, hasRoot = True\<rparr>\<rparr>]
 \<and> trash (tabRun [OnDrop \<lparr>did = 0, dataType = ''menu'', getData = \<lparr>ref = 9, hasRoot = True\<rparr>\<rparr>,
                   OnDrop \<lparr>did = 7, dataType = ''menu-item'', getData = \<lparr>ref = 2, hasRoot = False\<rparr>\<rparr>,
                   ItemDrop 0]
          (construct [\<lparr>did = 0, dataType = ''menu'', getData = \<lparr>ref = 9, hasRoot = True\<rparr>\<rparr>] 1 []))
     = [\<lparr>ref = 2, hasRoot = False\<rparr>]
 \<and> counterText (tabRun [OnDrop \<lparr>did = 0, dataType = ''menu'', getData = \<lparr>ref = 9, hasRoot = True\<rparr>\<rparr>,
                   OnDrop \<lparr>did = 7, dataType = ''menu-item'', getData = \<lparr>ref = 2, hasRoot = False\<rparr>\<rparr>,
                   ItemDrop 0]
          (construct [\<lparr>did = 0, dataType = ''menu'', getData = \<lparr>ref = 9, hasRoot = True\<rparr>\<rparr>] 1 []))
     = ''1''
 \<and> registry (tabRun [OnDrop \<lparr>did = 0, dataType = ''menu'', getData = \<lparr>ref = 9, hasRoot = True\<rparr>\<rparr>,
                   OnDrop \<lparr>did = 7, dataType = ''menu-item'', getData = \<lparr>ref = 2, hasRoot = False\<rparr>\<rparr>,
                   ItemDrop 0]
          (construct [\<lparr>did = 0, dataType = ''menu'', getData = \<lparr>ref = 9, hasRoot = True\<rparr>\<rparr>] 1 []))
     = [\<lparr>did = 0, dataType = ''menu'', getData = \<lparr>ref = 9, hasRoot = True\<rparr>\<rparr>,
        \<lparr>did = 4, dataType = ''trashed-menu-item'', getData = \<lparr>ref = 2, hasRoot = False\<rparr>\<rparr>]
 \<and> trash (onDrop \<lparr>did = 8, dataType = ''menu'', getData = \<lparr>ref = 3, hasRoot = True\<rparr>\<rparr>
        (tabRun [OnDrop \<lparr>did = 0, dataType = ''menu'', getData = \<lparr>ref = 9, hasRoot = True\<rparr>\<rparr>,
                   OnDrop \<lparr>did = 7, dataType = ''menu-item'', getData = \<lparr>ref = 2, hasRoot = False\<rparr>\<rparr>,
                   ItemDrop 0]
          (construct [\<lparr>did = 0, dataType = ''menu'', getData = \<lparr>ref = 9, hasRoot = True\<rparr>\<rparr>] 1 [])))
     = [\<lparr>ref = 2, hasRoot = False\<rparr>, \<lparr>ref = 3, hasRoot = True\<rparr>]"
proof -
  let ?reg = "[\<lparr>did = 0, dataType = ''menu'', getData = \<lparr>ref = 9, hasRoot = True\<rparr>\<rparr>]"
  let ?tab = "tabRun [OnDrop \<lparr>did = 0, dataType = ''menu'', getData = \<lparr>ref = 9, hasRoot = True\<rparr>\<rparr>,
                   OnDrop \<lparr>did = 7, dataType = ''menu-item'', getData = \<lparr>ref = 2, hasRoot = False\<rparr>\<rparr>,
                   ItemDrop 0] (construct ?reg 1 [])"
  have h: "list_all (\<lambda>e. did e < 1) ?reg" by simp
  have t: "trash ?tab = [\<lparr>ref = 2, hasRoot = False\<rparr>]" by code_simp
  have r: "registry ?tab
     = [\<lparr>did = 0, dataType = ''menu'', getData = \<lparr>ref = 9, hasRoot = True\<rparr>\<rparr>,
        \<lparr>did = 4, dataType = ''trashed-menu-item'', getData = \<lparr>ref = 2, hasRoot = False\<rparr>\<rparr>]"
    by code_simp
  have d: "toString (Suc 0) = ''1''" by code_simp
  from trash_tab_consistent [OF h refl,
      of "[OnDrop \<lparr>did = 0, dataType = ''menu'', getData = \<lparr>ref = 9, hasRoot = True\<rparr>\<rparr>,
           OnDrop \<lparr>did = 7, dataType = ''menu-item'', getData = \<lparr>ref = 2, hasRoot = False\<rparr>\<rparr>,
           ItemDrop 0]" "[]" "\<lparr>did = 8, dataType = ''menu'', getData = \<lparr>ref = 3, hasRoot = True\<rparr>\<rparr>"]
  show ?thesis using h r d unfolding t by simp
qed

end

